theory Spec2Isabelle
  imports Main
begin

section \<open>Strings as the engine uses them\<close>

text \<open>
  A string is a list of code units. The model covers the code units 0 to 255
  (Latin-1), which is what \<^typ>\<open>char\<close> holds. In that range the regular
  expression class \<open>\s\<close> and \<open>String.prototype.trim\<close> agree on the same seven
  code units, two of which are line terminators (which \<open>.\<close> does not match).
\<close>

definition isWhiteSpace :: "char \<Rightarrow> bool" where
  "isWhiteSpace c = (of_char c \<in> {9, 10, 11, 12, 13, 32, 160 :: nat})"

definition isLineTerminator :: "char \<Rightarrow> bool" where
  "isLineTerminator c = (of_char c \<in> {10, 13 :: nat})"

definition trim :: "string \<Rightarrow> string" where
  "trim s = rev (dropWhile isWhiteSpace (rev (dropWhile isWhiteSpace s)))"

text \<open>
  \<open>toLowerCase\<close> on Latin-1: the capital letters are the code units 65 to 90 and 192 to
  222 without 215; the small letter is 32 above, which in these ranges is the same code unit
  with bit 5 set.
\<close>

definition isUpper :: "char \<Rightarrow> bool" where
  "isUpper c =
     (let n = (of_char c :: nat)
      in (65 \<le> n \<and> n \<le> 90) \<or> (192 \<le> n \<and> n \<le> 222 \<and> n \<noteq> 215))"

definition lowerChar :: "char \<Rightarrow> char" where
  "lowerChar c =
     (if isUpper c
      then (case c of Char b0 b1 b2 b3 b4 b5 b6 b7 \<Rightarrow> Char b0 b1 b2 b3 b4 True b6 b7)
      else c)"

definition toLowerCase :: "string \<Rightarrow> string" where
  "toLowerCase s = map lowerChar s"

definition trimLower :: "string \<Rightarrow> string" where
  "trimLower s = toLowerCase (trim s)"

text \<open>\<open>s.split(c)\<close> for a one-character separator: never the empty list.\<close>

fun split :: "char \<Rightarrow> string \<Rightarrow> string list" where
  "split c [] = [[]]"
| "split c (x # xs) =
     (if x = c then [] # split c xs
      else (case split c xs of p # ps \<Rightarrow> (x # p) # ps | [] \<Rightarrow> [[x]]))"

fun startsWith :: "string \<Rightarrow> string \<Rightarrow> bool" where
  "startsWith s [] = True"
| "startsWith [] (p # ps) = False"
| "startsWith (x # xs) (p # ps) = (x = p \<and> startsWith xs ps)"

text \<open>
  \<open>rxEventAndSelectors = /(^[^\s]+)\s*?(.*?)$/\<close>, applied with \<open>exec\<close>; the result is the
  two groups, or \<open>None\<close> when \<open>exec\<close> returns \<open>null\<close>. Group 1 is the longest run of
  non-blank code units at the start and must not be empty. The lazy \<open>\s*?\<close> then takes
  as few blanks as possible, and group 2 must reach the end of the string without crossing
  a line terminator: so the blanks taken are those up to the last line terminator of the
  blank run that follows group 1, and there is no match when a line terminator comes
  later than that run. (A shorter group 1 cannot help: it is followed by a non-blank,
  and group 2 would still hold the same line terminator.)
\<close>

definition rxEventAndSelectors :: "string \<Rightarrow> (string \<times> string) option" where
  "rxEventAndSelectors s =
     (let g1 = takeWhile (\<lambda>c. \<not> isWhiteSpace c) s;
          rest = dropWhile (\<lambda>c. \<not> isWhiteSpace c) s;
          blanks = takeWhile isWhiteSpace rest;
          tail = dropWhile isWhiteSpace rest
      in if g1 = [] \<or> (\<exists>c \<in> set tail. isLineTerminator c) then None
         else Some (g1, rev (takeWhile (\<lambda>c. \<not> isLineTerminator c) (rev blanks)) @ tail))"

section \<open>Values, actions, events, handlers\<close>

datatype jsval = Undefined | Str string | Num int

function digits :: "nat \<Rightarrow> string" where
  "digits n =
     (if n < 10 then [''0123456789'' ! n]
      else digits (n div 10) @ [''0123456789'' ! (n mod 10)])"
  by pat_completeness auto
termination
  by (relation "measure id") auto

declare digits.simps [simp del]

text \<open>\<open>String(v)\<close>; numbers are the integers (a mouse button is one).\<close>

fun String :: "jsval \<Rightarrow> string" where
  "String Undefined = ''undefined''"
| "String (Str s) = s"
| "String (Num i) = (if i < 0 then CHR ''-'' # digits (nat (- i)) else digits (nat i))"

text \<open>
  A node is named by the path from itself up to the root of its tree: the parent of
  \<open>x # p\<close> is \<open>p\<close> when \<open>p\<close> is not empty. The tree does not change.
\<close>

type_synonym node = "nat list"

fun ancestors :: "node \<Rightarrow> node list" where
  "ancestors (x # y # p) = (y # p) # ancestors (y # p)"
| "ancestors p = []"

datatype action = Action (atype: string) (payload: jsval)

text \<open>
  What a user handler does, as far as the engine can tell: it calls \<open>e.dispatch(action)\<close>
  (with the default \<open>eventInitOptions\<close>), and it sets or removes attributes of nodes with
  the nodes' own \<open>setAttribute\<close> and \<open>removeAttribute\<close>. An exception that \<open>e.dispatch\<close>
  throws is not caught by the handler.
\<close>

datatype cmd =
    Dispatch action
  | SetAttribute node string string
  | RemoveAttribute node string

datatype userHandler = Handler (hname: string) (body: "cmd list")

record event =
  etype :: string
  target :: node
  bubbles :: bool
  key :: jsval
  button :: jsval
  detail :: "action option"

text \<open>
  The closure \<open>eventHandler\<close> that \<open>addHandlerForEvent\<close> creates: its identity, and the
  variables it closes over (\<open>dispatcher\<close> is \<open>getTargetDispatcher(target)\<close>, kept as the
  target).
\<close>

record wrapper =
  wid :: nat
  whandler :: userHandler
  wdelegates :: "string list"
  wmeta :: "string list"
  wdispatcher :: node

datatype listener = EventHandler wrapper | ProxyToAmara

text \<open>
  The value of a node's \<open>setAttribute\<close> or \<open>removeAttribute\<close> property: the native
  method, or the arrow function that \<open>prePatchDisabledBug\<close> installs, which closes over
  its \<open>meta\<close> object (by identity) and over what \<open>meta.orig\<close> holds for that method.
\<close>

datatype fn = Native | Patched nat fn

datatype error = Error string | TypeError | RangeError | SyntaxError

abbreviation DelegationNotAllowed :: error where
  "DelegationNotAllowed \<equiv> Error ''amara:* events must not be delegated''"

abbreviation SynchronousDispatchRequired :: error where
  "SynchronousDispatchRequired \<equiv> Error ''Event actions must be dispatched synchronously.''"

text \<open>
  What the surroundings observe, as a call tree: a \<open>dispatchEvent\<close> call on a node with
  all that happened until it returned, a call of a user handler (its name, \<open>this\<close>, the
  event) with all that happened inside, a call of the host's \<open>dispatch\<close>, and an exception
  that left a listener or a host call.
\<close>

datatype obs =
    Dispatched node event "obs list"
  | Called string node event "obs list"
  | HostDispatch "action option"
  | Uncaught error

text \<open>
  The variables of \<open>createHandler\<close> and the part of the document that the engine reads
  and writes. \<open>matches\<close> is \<open>Element.matches\<close>: whether a node matches a selector, which
  depends on the attributes that the nodes of the document have at the time of the call;
  it is \<open>None\<close> for a selector that is not valid, on which \<open>Element.matches\<close> throws a
  \<open>SyntaxError\<close>.
\<close>

record state =
  root :: "node option"
  async :: bool
  targetHandlers :: "node \<rightharpoonup> (string \<times> wrapper list) list"
  closures :: nat
  listeners :: "node \<Rightarrow> (string \<times> listener) list"
  attributes :: "node \<Rightarrow> string \<rightharpoonup> string"
  setAttribute :: "node \<Rightarrow> fn"
  removeAttribute :: "node \<Rightarrow> fn"
  disabled :: "nat \<Rightarrow> bool"
  metas :: nat
  matches :: "(node \<Rightarrow> string \<rightharpoonup> string) \<Rightarrow> node \<Rightarrow> string \<Rightarrow> bool option"
  trace :: "obs list"

datatype 'a result = Returned 'a | Threw error state

section \<open>The platform: listeners and attributes\<close>

definition addEventListener :: "node \<Rightarrow> string \<Rightarrow> listener \<Rightarrow> state \<Rightarrow> state" where
  "addEventListener n ty l s =
     (if (ty, l) \<in> set (listeners s n) then s
      else s\<lparr>listeners := (listeners s)(n := listeners s n @ [(ty, l)])\<rparr>)"

definition removeEventListener :: "node \<Rightarrow> string \<Rightarrow> listener \<Rightarrow> state \<Rightarrow> state" where
  "removeEventListener n ty l s =
     s\<lparr>listeners := (listeners s)(n := remove1 (ty, l) (listeners s n))\<rparr>"

definition hasAttribute :: "state \<Rightarrow> node \<Rightarrow> string \<Rightarrow> bool" where
  "hasAttribute s n a = (attributes s n a \<noteq> None)"

fun call_setAttribute :: "fn \<Rightarrow> node \<Rightarrow> string \<Rightarrow> string \<Rightarrow> state \<Rightarrow> state" where
  "call_setAttribute Native n a v s =
     s\<lparr>attributes := (attributes s)(n := (attributes s n)(a \<mapsto> v))\<rparr>"
| "call_setAttribute (Patched m orig) n a v s =
     (if a \<noteq> ''disabled'' then call_setAttribute orig n a v s
      else s\<lparr>disabled := (disabled s)(m := True)\<rparr>)"

fun call_removeAttribute :: "fn \<Rightarrow> node \<Rightarrow> string \<Rightarrow> state \<Rightarrow> state" where
  "call_removeAttribute Native n a s =
     s\<lparr>attributes := (attributes s)(n := (attributes s n)(a := None))\<rparr>"
| "call_removeAttribute (Patched m orig) n a s =
     (if a \<noteq> ''disabled'' then call_removeAttribute orig n a s
      else s\<lparr>disabled := (disabled s)(m := False)\<rparr>)"

section \<open>The engine\<close>

definition metaEventMap :: "string \<Rightarrow> string option" where
  "metaEventMap ty =
     (if ty = ''keydown'' \<or> ty = ''keyup'' \<or> ty = ''keypress'' then Some ''key''
      else if ty = ''mousedown'' \<or> ty = ''mouseup'' then Some ''button''
      else None)"

definition asMeta :: "string \<Rightarrow> string" where
  "asMeta v =
     (if v = ''space'' then '' ''
      else if v = ''left'' then ''0''
      else if v = ''middle'' then ''1''
      else if v = ''wheel'' then ''1''
      else if v = ''right'' then ''2''
      else v)"

definition fixMeta :: "string \<Rightarrow> string" where
  "fixMeta v = (if v = ''del'' then ''delete'' else v)"

text \<open>
  \<open>e[metaEventMap[e.type]]\<close>: the event's \<open>key\<close> or \<open>button\<close>; for every other event
  type the property name is \<open>undefined\<close> and so is the value.
\<close>

definition metaField :: "event \<Rightarrow> jsval" where
  "metaField e =
     (case metaEventMap (etype e) of
        None \<Rightarrow> Undefined
      | Some f \<Rightarrow> (if f = ''key'' then key e else if f = ''button'' then button e else Undefined))"

definition proxyToAmara :: "event \<Rightarrow> state \<Rightarrow> state" where
  "proxyToAmara e s =
     (if \<not> startsWith (etype e) ''amara:'' then s\<lparr>trace := trace s @ [HostDispatch (detail e)]\<rparr>
      else s)"

record meta_object =
  mid :: nat
  orig_setAttribute :: fn
  orig_removeAttribute :: fn

definition prePatchDisabledBug :: "node \<Rightarrow> state \<Rightarrow> meta_object \<times> state" where
  "prePatchDisabledBug tgt s =
     (let m = \<lparr>mid = metas s, orig_setAttribute = setAttribute s tgt,
                orig_removeAttribute = removeAttribute s tgt\<rparr>;
          s1 = s\<lparr>metas := Suc (metas s),
                 disabled := (disabled s)(metas s := hasAttribute s tgt ''disabled'')\<rparr>;
          s2 = call_removeAttribute (removeAttribute s1 tgt) tgt ''disabled'' s1
      in (m, s2\<lparr>setAttribute := (setAttribute s2)(tgt := Patched (mid m) (orig_setAttribute m)),
                removeAttribute :=
                  (removeAttribute s2)(tgt := Patched (mid m) (orig_removeAttribute m))\<rparr>))"

definition postPatchDisabledBug :: "node \<Rightarrow> meta_object \<Rightarrow> state \<Rightarrow> state" where
  "postPatchDisabledBug tgt m s =
     (let s1 = s\<lparr>setAttribute := (setAttribute s)(tgt := orig_setAttribute m),
                 removeAttribute := (removeAttribute s)(tgt := orig_removeAttribute m)\<rparr>
      in if disabled s1 (mid m)
         then call_setAttribute (setAttribute s1 tgt) tgt ''disabled'' [] s1
         else call_removeAttribute (removeAttribute s1 tgt) tgt ''disabled'' s1)"

text \<open>
  A dispatcher is \<open>dispatchActionAsEvent\<close> of some target: it takes the target, the
  action and \<open>eventInitOptions.bubbles\<close>.
\<close>

type_synonym dispatcher = "node \<Rightarrow> action \<Rightarrow> bool \<Rightarrow> state \<Rightarrow> state result"

text \<open>The body of a user handler; \<open>disp\<close> is the target of its \<open>e.dispatch\<close>.\<close>

fun run :: "dispatcher \<Rightarrow> node \<Rightarrow> cmd list \<Rightarrow> state \<Rightarrow> state result" where
  "run d disp [] s = Returned s"
| "run d disp (Dispatch a # cs) s =
     (case d disp a True s of
        Threw err s' \<Rightarrow> Threw err s'
      | Returned s' \<Rightarrow> run d disp cs s')"
| "run d disp (SetAttribute n a v # cs) s =
     run d disp cs (call_setAttribute (setAttribute s n) n a v s)"
| "run d disp (RemoveAttribute n a # cs) s =
     run d disp cs (call_removeAttribute (removeAttribute s n) n a s)"

text \<open>\<open>handler.call(this, e)\<close>, observed.\<close>

definition call :: "dispatcher \<Rightarrow> wrapper \<Rightarrow> node \<Rightarrow> event \<Rightarrow> state \<Rightarrow> state result" where
  "call d w this e s =
     (let h = whandler w
      in case run d (wdispatcher w) (body h) (s\<lparr>trace := []\<rparr>) of
           Returned s' \<Rightarrow> Returned (s'\<lparr>trace := trace s @ [Called (hname h) this e (trace s')]\<rparr>)
         | Threw err s' \<Rightarrow> Threw err (s'\<lparr>trace := trace s @ [Called (hname h) this e (trace s')]\<rparr>))"

definition metaValue :: "event \<Rightarrow> string" where
  "metaValue e = fixMeta (toLowerCase (String (metaField e)))"

text \<open>
  \<open>delegates.some(matches, e.target)\<close>: the selectors are tested in order until one
  matches; \<open>element.matches\<close> throws a \<open>SyntaxError\<close> on a selector that is not valid
  (\<open>None\<close>), and the test ends there.
\<close>

fun some :: "(string \<Rightarrow> bool option) \<Rightarrow> string list \<Rightarrow> bool option" where
  "some f [] = Some False"
| "some f (x # xs) =
     (case f x of
        None \<Rightarrow> None
      | Some True \<Rightarrow> Some True
      | Some False \<Rightarrow> some f xs)"

definition eventHandler :: "dispatcher \<Rightarrow> wrapper \<Rightarrow> node \<Rightarrow> event \<Rightarrow> state \<Rightarrow> state result" where
  "eventHandler d w this e s =
     (case (if wdelegates w \<noteq> [] then some (matches s (attributes s) (target e)) (wdelegates w)
            else Some True) of
        None \<Rightarrow> Threw SyntaxError s
      | Some False \<Rightarrow> Returned s
      | Some True \<Rightarrow>
          if wmeta w \<noteq> [] \<and> toLowerCase (metaValue e) \<notin> set (wmeta w)
          then Returned s
          else (case call d w this e (s\<lparr>async := False\<rparr>) of
                  Returned s' \<Rightarrow> Returned (s'\<lparr>async := True\<rparr>)
                | Threw err s' \<Rightarrow> Threw err s'))"

text \<open>
  \<open>target.dispatchEvent(e)\<close>: the event visits the target and, when it bubbles, the
  target's ancestors. On each node the listeners attached when the event arrives are
  called in the order they were added, those of the event's type that have not been
  removed in the meantime. An exception leaving a listener is reported and the next
  listener is called.
\<close>

definition callListener :: "dispatcher \<Rightarrow> listener \<Rightarrow> node \<Rightarrow> event \<Rightarrow> state \<Rightarrow> state" where
  "callListener d l this e s =
     (case l of
        ProxyToAmara \<Rightarrow> proxyToAmara e s
      | EventHandler w \<Rightarrow>
          (case eventHandler d w this e s of
             Returned s' \<Rightarrow> s'
           | Threw err s' \<Rightarrow> s'\<lparr>trace := trace s' @ [Uncaught err]\<rparr>))"

fun invoke :: "dispatcher \<Rightarrow> (string \<times> listener) list \<Rightarrow> node \<Rightarrow> event \<Rightarrow> state \<Rightarrow> state" where
  "invoke d [] this e s = s"
| "invoke d ((ty, l) # ls) this e s =
     (if ty = etype e \<and> (ty, l) \<in> set (listeners s this)
      then invoke d ls this e (callListener d l this e s)
      else invoke d ls this e s)"

fun visit :: "dispatcher \<Rightarrow> node list \<Rightarrow> event \<Rightarrow> state \<Rightarrow> state" where
  "visit d [] e s = s"
| "visit d (this # path) e s = visit d path e (invoke d (listeners s this) this e s)"

definition dispatchEvent :: "dispatcher \<Rightarrow> node \<Rightarrow> event \<Rightarrow> state \<Rightarrow> state" where
  "dispatchEvent d n e0 s =
     (let e = e0\<lparr>target := n\<rparr>;
          s' = visit d (n # (if bubbles e then ancestors n else [])) e (s\<lparr>trace := []\<rparr>)
      in s'\<lparr>trace := trace s @ [Dispatched n e (trace s')]\<rparr>)"

definition dispatchActionAsEvent :: "dispatcher \<Rightarrow> dispatcher" where
  "dispatchActionAsEvent d tgt action bub s =
     (if async s then Threw SynchronousDispatchRequired s
      else
        let ce = \<lparr>etype = atype action, target = tgt, bubbles = bub, key = Undefined,
                  button = Undefined, detail = Some action\<rparr>;
            s1 = (case root s of
                    Some r \<Rightarrow> addEventListener r (atype action) ProxyToAmara s
                  | None \<Rightarrow> s);
            (m, s2) = prePatchDisabledBug tgt s1;
            s3 = dispatchEvent d tgt ce s2;
            s4 = postPatchDisabledBug tgt m s3
        in Returned (case root s4 of
                       Some r \<Rightarrow> removeEventListener r (atype action) ProxyToAmara s4
                     | None \<Rightarrow> s4))"

text \<open>
  \<open>getTargetDispatcher k\<close> is the dispatcher on a call stack that has room for \<open>k\<close>
  further nested \<open>e.dispatch\<close> calls below it; the call that does not fit throws
  \<open>RangeError\<close>.
\<close>

primrec getTargetDispatcher :: "nat \<Rightarrow> dispatcher" where
  "getTargetDispatcher 0 = dispatchActionAsEvent (\<lambda>tgt action bub s. Threw RangeError s)"
| "getTargetDispatcher (Suc k) = dispatchActionAsEvent (getTargetDispatcher k)"

text \<open>\<open>syncDispatch\<close> passes \<open>{}\<close> as \<open>eventInitOptions\<close>: the event does not bubble.\<close>

definition syncDispatch ::
  "(action \<Rightarrow> bool \<Rightarrow> state \<Rightarrow> state result) \<Rightarrow> action \<Rightarrow> state \<Rightarrow> state result" where
  "syncDispatch dispatcher action s =
     (case dispatcher action False (s\<lparr>async := False\<rparr>) of
        Returned s' \<Rightarrow> Returned (s'\<lparr>async := True\<rparr>)
      | Threw err s' \<Rightarrow> Threw err s')"

text \<open>
  An \<open>EventMap\<close> is the list of its entries in the order of \<open>Object.keys\<close>; \<open>this\<close> of
  \<open>addHandlerForEvent\<close> is the context that \<open>applyEventsToTarget\<close> builds.
\<close>

type_synonym eventMap = "(string \<times> userHandler) list"

record binding_context =
  ctarget :: node
  added :: bool

text \<open>
  Lines 158 to 161 on the target's \<open>Map\<close>: the wrapper is pushed on the array of its
  event type, which is created at the end of the \<open>Map\<close> when the type is new.
\<close>

definition push :: "string \<Rightarrow> wrapper \<Rightarrow> (string \<times> wrapper list) list \<Rightarrow> (string \<times> wrapper list) list" where
  "push ev w m =
     (if ev \<in> fst ` set m then map (\<lambda>(ty, ws). if ty = ev then (ty, ws @ [w]) else (ty, ws)) m
      else m @ [(ev, [w])])"

definition parseDelegates :: "string \<Rightarrow> string list" where
  "parseDelegates selectors = filter (\<lambda>x. x \<noteq> []) (map trim (split CHR '','' selectors))"

definition parseEventMeta :: "string \<Rightarrow> string list" where
  "parseEventMeta eventMeta = map asMeta (map trimLower (split CHR ''.'' eventMeta))"

definition addHandlerForEvent ::
  "binding_context \<Rightarrow> string \<times> userHandler \<Rightarrow> state \<Rightarrow> (binding_context \<times> state) result" where
  "addHandlerForEvent this entry s =
     (case rxEventAndSelectors (fst entry) of
        None \<Rightarrow> Threw TypeError s
      | Some (eventMeta, selectors) \<Rightarrow>
          (let delegates = parseDelegates selectors
           in case parseEventMeta eventMeta of
                [] \<Rightarrow> Threw TypeError s
              | event # meta \<Rightarrow>
                  if startsWith event ''amara:'' \<and> delegates \<noteq> []
                  then Threw DelegationNotAllowed s
                  else
                    let eventHandler = \<lparr>wid = closures s, whandler = snd entry,
                                        wdelegates = delegates, wmeta = meta,
                                        wdispatcher = ctarget this\<rparr>;
                        this' = (case targetHandlers s (ctarget this) of
                                   None \<Rightarrow> this\<lparr>added := True\<rparr>
                                 | Some m \<Rightarrow> this);
                        mapEventHandlers = (case targetHandlers s (ctarget this) of
                                              None \<Rightarrow> []
                                            | Some m \<Rightarrow> m);
                        s1 = addEventListener (ctarget this) event (EventHandler eventHandler)
                               (s\<lparr>closures := Suc (closures s)\<rparr>)
                    in Returned (this', s1\<lparr>targetHandlers := (targetHandlers s1)
                                   (ctarget this \<mapsto> push event eventHandler mapEventHandlers)\<rparr>)))"

fun applyEventMap :: "binding_context \<Rightarrow> eventMap \<Rightarrow> state \<Rightarrow> (binding_context \<times> state) result" where
  "applyEventMap this [] s = Returned (this, s)"
| "applyEventMap this (entry # entries) s =
     (case addHandlerForEvent this entry s of
        Threw err s' \<Rightarrow> Threw err s'
      | Returned (this', s') \<Rightarrow> applyEventMap this' entries s')"

fun applyEventMaps :: "binding_context \<Rightarrow> eventMap list \<Rightarrow> state \<Rightarrow> (binding_context \<times> state) result" where
  "applyEventMaps this [] s = Returned (this, s)"
| "applyEventMaps this (m # ms) s =
     (case applyEventMap this m s of
        Threw err s' \<Rightarrow> Threw err s'
      | Returned (this', s') \<Rightarrow> applyEventMaps this' ms s')"

fun removeListeners :: "node \<Rightarrow> wrapper list \<Rightarrow> string \<Rightarrow> state \<Rightarrow> state" where
  "removeListeners this [] ty s = s"
| "removeListeners this (h # handlers) ty s =
     removeListeners this handlers ty (removeEventListener this ty (EventHandler h) s)"

fun forEachRemoveListeners :: "node \<Rightarrow> (string \<times> wrapper list) list \<Rightarrow> state \<Rightarrow> state" where
  "forEachRemoveListeners this [] s = s"
| "forEachRemoveListeners this ((ty, handlers) # m) s =
     forEachRemoveListeners this m (removeListeners this handlers ty s)"

definition applyEventsToTarget :: "nat \<Rightarrow> eventMap list \<Rightarrow> node \<Rightarrow> state \<Rightarrow> state result" where
  "applyEventsToTarget k results tgt s =
     (let context = \<lparr>ctarget = tgt, added = False\<rparr>;
          s1 = (case targetHandlers s tgt of
                  None \<Rightarrow> s
                | Some mapEventHandlers \<Rightarrow>
                    (let s' = forEachRemoveListeners tgt mapEventHandlers s
                     in s'\<lparr>targetHandlers := (targetHandlers s')(tgt \<mapsto> [])\<rparr>))
      in case applyEventMaps context results s1 of
           Threw err s' \<Rightarrow> Threw err s'
         | Returned (context', s2) \<Rightarrow>
             (case (if added context'
                    then syncDispatch (getTargetDispatcher k tgt) (Action ''amara:add'' Undefined) s2
                    else Returned s2) of
                Threw err s' \<Rightarrow> Threw err s'
              | Returned s3 \<Rightarrow>
                  syncDispatch (getTargetDispatcher k tgt) (Action ''amara:apply'' Undefined) s3))"

definition removeTargetHandlers :: "nat \<Rightarrow> node \<Rightarrow> state \<Rightarrow> state result" where
  "removeTargetHandlers k tgt s =
     (case targetHandlers s tgt of
        None \<Rightarrow> Returned s
      | Some m \<Rightarrow>
          (case syncDispatch (getTargetDispatcher k tgt) (Action ''amara:remove'' Undefined) s of
             Threw err s' \<Rightarrow> Threw err s'
           | Returned s1 \<Rightarrow>
               Returned (forEachRemoveListeners tgt
                           (case targetHandlers s1 tgt of None \<Rightarrow> [] | Some mapHandlerWrapper \<Rightarrow> mapHandlerWrapper)
                           (s1\<lparr>targetHandlers := (targetHandlers s1)(tgt := None)\<rparr>))))"

text \<open>
  The actions of the host. \<open>payload.events\<close> of \<open>core:apply-target-results\<close> is a \<open>Map\<close>
  from targets to lists of event maps, or is absent; an action of any other type is
  ignored.
\<close>

datatype host_action =
    Bootstrap node
  | ApplyTargetResults "(node \<times> eventMap list) list option"
  | TargetsRemoved "node list"
  | Other string

fun forEachApply :: "nat \<Rightarrow> (node \<times> eventMap list) list \<Rightarrow> state \<Rightarrow> state result" where
  "forEachApply k [] s = Returned s"
| "forEachApply k ((tgt, results) # events) s =
     (case applyEventsToTarget k results tgt s of
        Threw err s' \<Rightarrow> Threw err s'
      | Returned s' \<Rightarrow> forEachApply k events s')"

fun forEachRemove :: "nat \<Rightarrow> node list \<Rightarrow> state \<Rightarrow> state result" where
  "forEachRemove k [] s = Returned s"
| "forEachRemove k (tgt # tgts) s =
     (case removeTargetHandlers k tgt s of
        Threw err s' \<Rightarrow> Threw err s'
      | Returned s' \<Rightarrow> forEachRemove k tgts s')"

fun handler :: "nat \<Rightarrow> host_action \<Rightarrow> state \<Rightarrow> state result" where
  "handler k (Bootstrap tgt) s = Returned (s\<lparr>root := Some tgt\<rparr>)"
| "handler k (ApplyTargetResults None) s = Returned s"
| "handler k (ApplyTargetResults (Some events)) s = forEachApply k events s"
| "handler k (TargetsRemoved tgts) s = forEachRemove k tgts s"
| "handler k (Other ty) s = Returned s"

section \<open>The surroundings\<close>

text \<open>
  Between two steps no code of the engine is on the call stack. A step is an action of
  the host, an event that the browser or a script dispatches on a node, or a deferred
  callback of a handler that calls the \<open>e.dispatch\<close> it kept (the dispatcher of that
  handler's target). An exception that leaves the engine is observed.
\<close>

datatype step =
    Host host_action
  | Fire node event
  | Deferred node action

definition observe :: "state result \<Rightarrow> state" where
  "observe r = (case r of Returned s \<Rightarrow> s | Threw err s \<Rightarrow> s\<lparr>trace := trace s @ [Uncaught err]\<rparr>)"

fun exec :: "nat \<Rightarrow> step \<Rightarrow> state \<Rightarrow> state" where
  "exec k (Host a) s = observe (handler k a s)"
| "exec k (Fire n e) s = dispatchEvent (getTargetDispatcher k) n e s"
| "exec k (Deferred n a) s = observe (getTargetDispatcher k n a True s)"

fun execs :: "nat \<Rightarrow> step list \<Rightarrow> state \<Rightarrow> state" where
  "execs k [] s = s"
| "execs k (st # sts) s = execs k sts (exec k st s)"

text \<open>
  The state in which \<open>createHandler\<close> leaves the engine, in a document with the given
  attributes and the given \<open>Element.matches\<close>.
\<close>

definition init ::
  "(node \<Rightarrow> string \<rightharpoonup> string) \<Rightarrow> ((node \<Rightarrow> string \<rightharpoonup> string) \<Rightarrow> node \<Rightarrow> string \<Rightarrow> bool option) \<Rightarrow> state" where
  "init attrs sel =
     \<lparr>root = None, async = True, targetHandlers = Map.empty, closures = 0,
      listeners = (\<lambda>n. []), attributes = attrs, setAttribute = (\<lambda>n. Native),
      removeAttribute = (\<lambda>n. Native), disabled = (\<lambda>m. False), metas = 0,
      matches = sel, trace = []\<rparr>"

section \<open>What a dispatch leaves alone\<close>

text \<open>
  The listeners of a node that the engine bound (all but \<open>proxyToAmara\<close>), in the order
  in which they were added.
\<close>

definition bound :: "state \<Rightarrow> node \<Rightarrow> (string \<times> listener) list" where
  "bound s n = filter (\<lambda>x. snd x \<noteq> ProxyToAmara) (listeners s n)"

definition final :: "state result \<Rightarrow> state" where
  "final r = (case r of Returned s \<Rightarrow> s | Threw err s \<Rightarrow> s)"

definition keeps :: "state \<Rightarrow> state \<Rightarrow> bool" where
  "keeps s s' \<longleftrightarrow>
     root s' = root s \<and> targetHandlers s' = targetHandlers s \<and> closures s' = closures s \<and>
     matches s' = matches s \<and> (\<forall>n. bound s' n = bound s n) \<and>
     (\<forall>n. distinct (listeners s n) \<longrightarrow> distinct (listeners s' n))"

definition frame :: "dispatcher \<Rightarrow> bool" where
  "frame d \<longleftrightarrow> (\<forall>tgt a b s. keeps s (final (d tgt a b s)))"

lemma final_simps [simp]: "final (Returned s) = s" "final (Threw err s) = s"
  by (simp_all add: final_def)

lemma keeps_refl [simp]: "keeps s s"
  by (simp add: keeps_def)

lemma keeps_trans [trans]: "keeps s s1 \<Longrightarrow> keeps s1 s2 \<Longrightarrow> keeps s s2"
  by (simp add: keeps_def)

lemma keeps_trace [simp]: "keeps s (s'\<lparr>trace := t\<rparr>) = keeps s s'"
  "keeps (s\<lparr>trace := t\<rparr>) s' = keeps s s'"
  by (simp_all add: keeps_def bound_def)

lemma keeps_async [simp]: "keeps s (s'\<lparr>async := b\<rparr>) = keeps s s'"
  "keeps (s\<lparr>async := b\<rparr>) s' = keeps s s'"
  by (simp_all add: keeps_def bound_def)

lemma keeps_call_setAttribute: "keeps s (call_setAttribute f n a v s)"
  by (induction f) (simp_all add: keeps_def bound_def)

lemma keeps_call_removeAttribute: "keeps s (call_removeAttribute f n a s)"
  by (induction f) (simp_all add: keeps_def bound_def)

lemma keeps_prePatch: "keeps s (snd (prePatchDisabledBug tgt s))"
proof -
  let ?s1 = "s\<lparr>metas := Suc (metas s),
               disabled := (disabled s)(metas s := hasAttribute s tgt ''disabled'')\<rparr>"
  have a: "keeps s ?s1"
    by (simp add: keeps_def bound_def)
  have b: "keeps ?s1 (call_removeAttribute (removeAttribute ?s1 tgt) tgt ''disabled'' ?s1)"
    by (rule keeps_call_removeAttribute)
  have "keeps s (call_removeAttribute (removeAttribute ?s1 tgt) tgt ''disabled'' ?s1)"
    by (rule keeps_trans [OF a b])
  then show ?thesis
    by (simp add: prePatchDisabledBug_def Let_def keeps_def bound_def)
qed

lemma keeps_postPatch: "keeps s (postPatchDisabledBug tgt m s)"
proof -
  let ?s1 = "s\<lparr>setAttribute := (setAttribute s)(tgt := orig_setAttribute m),
               removeAttribute := (removeAttribute s)(tgt := orig_removeAttribute m)\<rparr>"
  have a: "keeps s ?s1"
    by (simp add: keeps_def bound_def)
  have "keeps ?s1 (postPatchDisabledBug tgt m s)"
    by (simp add: postPatchDisabledBug_def Let_def keeps_call_setAttribute
        keeps_call_removeAttribute del: fun_upd_apply)
  with a show ?thesis
    by (rule keeps_trans)
qed

lemma keeps_addProxy: "keeps s (addEventListener r ty ProxyToAmara s)"
  by (simp add: keeps_def bound_def addEventListener_def)

lemma filter_remove1_absent: "\<not> P x \<Longrightarrow> filter P (remove1 x xs) = filter P xs"
  by (induction xs) auto

lemma keeps_removeProxy: "keeps s (removeEventListener r ty ProxyToAmara s)"
  by (simp add: keeps_def bound_def removeEventListener_def filter_remove1_absent)

lemma keeps_proxyToAmara: "keeps s (proxyToAmara e s)"
  by (simp add: proxyToAmara_def)

lemma keeps_run: "frame d \<Longrightarrow> keeps s (final (run d disp cs s))"
proof (induction cs arbitrary: s)
  case Nil
  then show ?case by simp
next
  case (Cons c cs)
  show ?case
  proof (cases c)
    case (Dispatch a)
    from Cons.prems have k: "keeps s (final (d disp a True s))"
      by (simp add: frame_def)
    show ?thesis
    proof (cases "d disp a True s")
      case (Returned s1)
      with k have "keeps s s1" by simp
      moreover have "keeps s1 (final (run d disp cs s1))"
        by (rule Cons.IH [OF Cons.prems])
      ultimately show ?thesis
        using Dispatch Returned by (simp add: keeps_trans)
    next
      case (Threw err s1)
      with k Dispatch show ?thesis by simp
    qed
  next
    case (SetAttribute n a v)
    have "keeps s (call_setAttribute (setAttribute s n) n a v s)"
      by (rule keeps_call_setAttribute)
    moreover have "keeps (call_setAttribute (setAttribute s n) n a v s)
        (final (run d disp cs (call_setAttribute (setAttribute s n) n a v s)))"
      by (rule Cons.IH [OF Cons.prems])
    ultimately show ?thesis
      using SetAttribute by (simp add: keeps_trans)
  next
    case (RemoveAttribute n a)
    have "keeps s (call_removeAttribute (removeAttribute s n) n a s)"
      by (rule keeps_call_removeAttribute)
    moreover have "keeps (call_removeAttribute (removeAttribute s n) n a s)
        (final (run d disp cs (call_removeAttribute (removeAttribute s n) n a s)))"
      by (rule Cons.IH [OF Cons.prems])
    ultimately show ?thesis
      using RemoveAttribute by (simp add: keeps_trans)
  qed
qed

lemma keeps_call: "frame d \<Longrightarrow> keeps s (final (call d w this e s))"
proof -
  assume f: "frame d"
  have "keeps (s\<lparr>trace := []\<rparr>) (final (run d (wdispatcher w) (body (whandler w)) (s\<lparr>trace := []\<rparr>)))"
    by (rule keeps_run [OF f])
  then show ?thesis
    by (cases "run d (wdispatcher w) (body (whandler w)) (s\<lparr>trace := []\<rparr>)")
      (simp_all add: call_def Let_def)
qed

lemma keeps_eventHandler: "frame d \<Longrightarrow> keeps s (final (eventHandler d w this e s))"
proof -
  assume f: "frame d"
  have "keeps (s\<lparr>async := False\<rparr>) (final (call d w this e (s\<lparr>async := False\<rparr>)))"
    by (rule keeps_call [OF f])
  then show ?thesis
    by (cases "call d w this e (s\<lparr>async := False\<rparr>)")
      (simp_all add: eventHandler_def split: option.split bool.split)
qed

lemma keeps_callListener: "frame d \<Longrightarrow> keeps s (callListener d l this e s)"
proof (cases l)
  case (EventHandler w)
  assume "frame d"
  then have "keeps s (final (eventHandler d w this e s))"
    by (rule keeps_eventHandler)
  then show ?thesis
    using EventHandler by (cases "eventHandler d w this e s") (simp_all add: callListener_def)
next
  case ProxyToAmara
  then show ?thesis by (simp add: callListener_def keeps_proxyToAmara)
qed

lemma keeps_invoke: "frame d \<Longrightarrow> keeps s (invoke d ls this e s)"
proof (induction ls arbitrary: s)
  case Nil
  then show ?case by simp
next
  case (Cons x ls)
  obtain ty l where x: "x = (ty, l)" by (cases x)
  have "keeps s (callListener d l this e s)"
    by (rule keeps_callListener [OF Cons.prems])
  moreover have "keeps (callListener d l this e s) (invoke d ls this e (callListener d l this e s))"
    by (rule Cons.IH [OF Cons.prems])
  ultimately have "keeps s (invoke d ls this e (callListener d l this e s))"
    by (rule keeps_trans)
  moreover have "keeps s (invoke d ls this e s)"
    by (rule Cons.IH [OF Cons.prems])
  ultimately show ?case
    using x by simp
qed

lemma keeps_visit: "frame d \<Longrightarrow> keeps s (visit d path e s)"
proof (induction path arbitrary: s)
  case Nil
  then show ?case by simp
next
  case (Cons this path)
  have "keeps s (invoke d (listeners s this) this e s)"
    by (rule keeps_invoke [OF Cons.prems])
  moreover have "keeps (invoke d (listeners s this) this e s)
      (visit d path e (invoke d (listeners s this) this e s))"
    by (rule Cons.IH [OF Cons.prems])
  ultimately show ?case
    by (simp add: keeps_trans)
qed

lemma keeps_dispatchEvent: "frame d \<Longrightarrow> keeps s (dispatchEvent d n e s)"
proof -
  assume f: "frame d"
  have "keeps (s\<lparr>trace := []\<rparr>)
     (visit d (n # (if bubbles e then ancestors n else [])) (e\<lparr>target := n\<rparr>) (s\<lparr>trace := []\<rparr>))"
    by (rule keeps_visit [OF f])
  then show ?thesis
    by (simp add: dispatchEvent_def Let_def)
qed

lemma keeps_dispatchActionAsEvent:
  assumes f: "frame d"
  shows "keeps s (final (dispatchActionAsEvent d tgt a b s))"
proof (cases "async s")
  case True
  then show ?thesis by (simp add: dispatchActionAsEvent_def)
next
  case False
  define s1 where "s1 = (case root s of
      Some r \<Rightarrow> addEventListener r (atype a) ProxyToAmara s | None \<Rightarrow> s)"
  define ce where "ce = \<lparr>etype = atype a, target = tgt, bubbles = b, key = Undefined,
      button = Undefined, detail = Some a\<rparr>"
  define m where "m = fst (prePatchDisabledBug tgt s1)"
  define s2 where "s2 = snd (prePatchDisabledBug tgt s1)"
  define s3 where "s3 = dispatchEvent d tgt ce s2"
  define s4 where "s4 = postPatchDisabledBug tgt m s3"
  define s5 where "s5 = (case root s4 of
      Some r \<Rightarrow> removeEventListener r (atype a) ProxyToAmara s4 | None \<Rightarrow> s4)"
  have r: "dispatchActionAsEvent d tgt a b s = Returned s5"
    unfolding dispatchActionAsEvent_def Let_def s5_def s4_def s3_def s2_def m_def s1_def ce_def
      case_prod_beta
    using False by simp
  have "keeps s s1"
    by (simp add: s1_def keeps_addProxy split: option.split)
  also have "keeps s1 s2"
    unfolding s2_def by (rule keeps_prePatch)
  also have "keeps s2 s3"
    unfolding s3_def by (rule keeps_dispatchEvent [OF f])
  also have "keeps s3 s4"
    unfolding s4_def by (rule keeps_postPatch)
  also have "keeps s4 s5"
    by (simp add: s5_def keeps_removeProxy split: option.split)
  finally show ?thesis
    using r by simp
qed

lemma frame_dispatchActionAsEvent: "frame d \<Longrightarrow> frame (dispatchActionAsEvent d)"
  by (simp add: frame_def keeps_dispatchActionAsEvent [unfolded frame_def])

lemma frame_getTargetDispatcher: "frame (getTargetDispatcher k)"
proof (induction k)
  case 0
  have "frame (\<lambda>tgt action bub s. Threw RangeError s)"
    by (simp add: frame_def)
  then show ?case
    by (simp add: frame_dispatchActionAsEvent)
next
  case (Suc k)
  then show ?case
    by (simp add: frame_dispatchActionAsEvent)
qed

lemma keeps_syncDispatch: "keeps s (final (syncDispatch (getTargetDispatcher k tgt) a s))"
proof -
  have "keeps (s\<lparr>async := False\<rparr>) (final (getTargetDispatcher k tgt a False (s\<lparr>async := False\<rparr>)))"
    using frame_getTargetDispatcher [of k] by (simp add: frame_def)
  then show ?thesis
    by (cases "getTargetDispatcher k tgt a False (s\<lparr>async := False\<rparr>)")
      (simp_all add: syncDispatch_def)
qed

section \<open>The registry and the listeners agree\<close>

definition entriesOf :: "(string \<times> wrapper list) list \<Rightarrow> (string \<times> listener) list" where
  "entriesOf m = concat (map (\<lambda>x. map (\<lambda>w. (fst x, EventHandler w)) (snd x)) m)"

definition registered :: "state \<Rightarrow> node \<Rightarrow> (string \<times> listener) set" where
  "registered s n = (case targetHandlers s n of None \<Rightarrow> {} | Some m \<Rightarrow> set (entriesOf m))"

text \<open>
  In a well-formed state the listeners that the engine bound on a node are those of the
  node's registry entry, every closure is older than the next one to be created, an
  event type occurs once in a registry entry, and no listener is attached twice.
\<close>

definition consistent :: "state \<Rightarrow> bool" where
  "consistent s \<longleftrightarrow>
     (\<forall>n. set (bound s n) = registered s n) \<and>
     (\<forall>n ty w. (ty, EventHandler w) \<in> set (bound s n) \<longrightarrow> wid w < closures s) \<and>
     (\<forall>n m. targetHandlers s n = Some m \<longrightarrow> distinct (map fst m)) \<and>
     (\<forall>n. distinct (listeners s n))"

lemma consistent_keeps: "keeps s s' \<Longrightarrow> consistent s \<Longrightarrow> consistent s'"
  by (simp add: keeps_def consistent_def registered_def)

lemma consistent_trace [simp]: "consistent (s\<lparr>trace := t\<rparr>) = consistent s"
  by (simp add: consistent_def registered_def bound_def)

lemma consistent_init: "consistent (init attrs sel)"
  by (simp add: consistent_def init_def bound_def registered_def)

lemma mem_bound: "(ty, EventHandler w) \<in> set (bound s n) \<longleftrightarrow> (ty, EventHandler w) \<in> set (listeners s n)"
  by (auto simp: bound_def)

lemma bound_subset: "set (bound s n) \<subseteq> set (listeners s n)"
  by (auto simp: bound_def)

lemma removeListeners_eq:
  "removeListeners t ws ty s =
     s\<lparr>listeners := (listeners s)(t := fold remove1 (map (\<lambda>w. (ty, EventHandler w)) ws) (listeners s t))\<rparr>"
  by (induction ws arbitrary: s) (simp_all add: removeEventListener_def)

lemma forEachRemoveListeners_eq:
  "forEachRemoveListeners t m s =
     s\<lparr>listeners := (listeners s)(t := fold remove1 (entriesOf m) (listeners s t))\<rparr>"
proof (induction m arbitrary: s)
  case Nil
  then show ?case by (simp add: entriesOf_def)
next
  case (Cons x m)
  obtain ty ws where x: "x = (ty, ws)" by (cases x)
  have e: "entriesOf (x # m) = map (\<lambda>w. (ty, EventHandler w)) ws @ entriesOf m"
    by (simp add: entriesOf_def x)
  have "forEachRemoveListeners t (x # m) s = forEachRemoveListeners t m (removeListeners t ws ty s)"
    by (simp add: x)
  also have "\<dots> = (removeListeners t ws ty s)\<lparr>listeners := (listeners (removeListeners t ws ty s))
      (t := fold remove1 (entriesOf m) (listeners (removeListeners t ws ty s) t))\<rparr>"
    by (rule Cons.IH)
  also have "\<dots> = s\<lparr>listeners := (listeners s)(t := fold remove1 (entriesOf (x # m)) (listeners s t))\<rparr>"
    by (simp add: removeListeners_eq e)
  finally show ?case .
qed

lemma fold_remove1:
  "distinct xs \<Longrightarrow> set (fold remove1 L xs) = set xs - set L \<and> distinct (fold remove1 L xs)"
proof (induction L arbitrary: xs)
  case Nil
  then show ?case by simp
next
  case (Cons a L)
  from Cons.prems have "distinct (remove1 a xs)" by simp
  from Cons.IH [OF this] Cons.prems show ?case
    by auto
qed

text \<open>The state after the target's bindings have been detached and its entry cleared.\<close>

definition cleared :: "node \<Rightarrow> state \<Rightarrow> state" where
  "cleared tgt s =
     (case targetHandlers s tgt of
        None \<Rightarrow> s
      | Some mapEventHandlers \<Rightarrow>
          (let s' = forEachRemoveListeners tgt mapEventHandlers s
           in s'\<lparr>targetHandlers := (targetHandlers s')(tgt \<mapsto> [])\<rparr>))"

lemma set_empty_filter: "set (filter P xs) = {} \<Longrightarrow> filter P xs = []"
  by simp

lemma bound_detached:
  assumes "consistent s" and "targetHandlers s t = Some m"
  shows "bound (forEachRemoveListeners t m s) t = []"
    and "distinct (listeners (forEachRemoveListeners t m s) t)"
    and "n \<noteq> t \<Longrightarrow> listeners (forEachRemoveListeners t m s) n = listeners s n"
proof -
  have d: "distinct (listeners s t)"
    using assms(1) by (simp add: consistent_def)
  have r: "set (bound s t) = set (entriesOf m)"
    using assms by (simp add: consistent_def registered_def)
  have l: "listeners (forEachRemoveListeners t m s) t = fold remove1 (entriesOf m) (listeners s t)"
    by (simp add: forEachRemoveListeners_eq)
  have "set (bound (forEachRemoveListeners t m s) t)
      = {x \<in> set (listeners s t) - set (entriesOf m). snd x \<noteq> ProxyToAmara}"
    using fold_remove1 [OF d, of "entriesOf m"] by (simp add: bound_def l)
  also have "\<dots> = set (bound s t) - set (entriesOf m)"
    by (auto simp: bound_def)
  also have "\<dots> = {}"
    using r by simp
  finally have "set (bound (forEachRemoveListeners t m s) t) = {}" .
  then show "bound (forEachRemoveListeners t m s) t = []"
    by simp
  show "distinct (listeners (forEachRemoveListeners t m s) t)"
    using fold_remove1 [OF d, of "entriesOf m"] by (simp add: l)
  show "n \<noteq> t \<Longrightarrow> listeners (forEachRemoveListeners t m s) n = listeners s n"
    by (simp add: forEachRemoveListeners_eq)
qed

lemma forEachRemoveListeners_fields [simp]:
  "targetHandlers (forEachRemoveListeners t m s) = targetHandlers s"
  "closures (forEachRemoveListeners t m s) = closures s"
  "trace (forEachRemoveListeners t m s) = trace s"
  "async (forEachRemoveListeners t m s) = async s"
  "root (forEachRemoveListeners t m s) = root s"
  "matches (forEachRemoveListeners t m s) = matches s"
  "attributes (forEachRemoveListeners t m s) = attributes s"
  by (simp_all add: forEachRemoveListeners_eq)

lemma bound_other: "listeners s' n = listeners s n \<Longrightarrow> bound s' n = bound s n"
  by (simp add: bound_def)

lemma consistent_detached:
  assumes w: "consistent s" and m: "targetHandlers s t = Some m" and that: "e = None \<or> e = Some []"
  shows "consistent ((forEachRemoveListeners t m s)\<lparr>targetHandlers := (targetHandlers s)(t := e)\<rparr>)"
proof -
  let ?s1 = "forEachRemoveListeners t m s"
  let ?s2 = "?s1\<lparr>targetHandlers := (targetHandlers s)(t := e)\<rparr>"
  have b: "bound ?s2 t = []"
    using bound_detached(1) [OF w m] by (simp add: bound_def)
  have o: "\<And>n. n \<noteq> t \<Longrightarrow> bound ?s2 n = bound s n"
    using bound_detached(3) [OF w m] by (simp add: bound_def)
  have d: "\<And>n. distinct (listeners ?s2 n)"
  proof -
    fix n
    show "distinct (listeners ?s2 n)"
      using bound_detached(2) [OF w m] bound_detached(3) [OF w m, of n] w
      by (cases "n = t") (simp_all add: consistent_def)
  qed
  have 1: "\<And>n. set (bound ?s2 n) = registered ?s2 n"
  proof -
    fix n
    show "set (bound ?s2 n) = registered ?s2 n"
    proof (cases "n = t")
      case True
      then show ?thesis
        using b that by (auto simp: registered_def entriesOf_def)
    next
      case False
      then show ?thesis
        using o [OF False] w by (simp add: consistent_def registered_def)
    qed
  qed
  have 2: "\<And>n ty w. (ty, EventHandler w) \<in> set (bound ?s2 n) \<Longrightarrow> wid w < closures ?s2"
  proof -
    fix n ty w
    assume a: "(ty, EventHandler w) \<in> set (bound ?s2 n)"
    show "wid w < closures ?s2"
    proof (cases "n = t")
      case True
      with a b show ?thesis by simp
    next
      case False
      with a o [OF False] w show ?thesis by (auto simp: consistent_def)
    qed
  qed
  have 3: "\<And>n m'. targetHandlers ?s2 n = Some m' \<Longrightarrow> distinct (map fst m')"
    using w that by (auto simp: consistent_def split: if_splits)
  show ?thesis
    unfolding consistent_def using 1 2 3 d by blast
qed

lemma consistent_cleared: "consistent s \<Longrightarrow> consistent (cleared t s)"
  by (cases "targetHandlers s t") (simp_all add: cleared_def Let_def consistent_detached)

lemma bound_cleared: "consistent s \<Longrightarrow> bound (cleared t s) t = []"
proof (cases "targetHandlers s t")
  case None
  assume "consistent s"
  then have "set (bound s t) = {}"
    using None by (simp add: consistent_def registered_def)
  then have "bound s t = []"
    by simp
  then show ?thesis
    using None by (simp add: cleared_def bound_def)
next
  case (Some m)
  assume "consistent s"
  from bound_detached(1) [OF this Some] show ?thesis
    using Some by (simp add: cleared_def Let_def bound_def)
qed

lemma cleared_fields [simp]:
  "closures (cleared t s) = closures s"
  "trace (cleared t s) = trace s"
  "async (cleared t s) = async s"
  "root (cleared t s) = root s"
  "matches (cleared t s) = matches s"
  "attributes (cleared t s) = attributes s"
  by (simp_all add: cleared_def Let_def split: option.split)

lemma cleared_registry:
  "targetHandlers (cleared t s) n =
     (if n = t then (case targetHandlers s t of None \<Rightarrow> None | Some m \<Rightarrow> Some []) else targetHandlers s n)"
  by (simp add: cleared_def Let_def split: option.split)

lemma cleared_listeners_other: "n \<noteq> t \<Longrightarrow> listeners (cleared t s) n = listeners s n"
  by (simp add: cleared_def Let_def forEachRemoveListeners_eq split: option.split)

section \<open>Binding one entry, and all entries of a call\<close>

text \<open>
  The parsed form of a key: event type, meta tokens, delegation selectors; \<open>None\<close> when
  \<open>addHandlerForEvent\<close> throws a \<open>TypeError\<close> on the key.
\<close>

definition parseSpec :: "string \<Rightarrow> (string \<times> string list \<times> string list) option" where
  "parseSpec k =
     (case rxEventAndSelectors k of
        None \<Rightarrow> None
      | Some (eventMeta, selectors) \<Rightarrow>
          (case parseEventMeta eventMeta of
             [] \<Rightarrow> None
           | event # meta \<Rightarrow> Some (event, meta, parseDelegates selectors)))"

definition delegatedLifecycle :: "string \<Rightarrow> bool" where
  "delegatedLifecycle k =
     (case parseSpec k of
        None \<Rightarrow> False
      | Some (event, meta, delegates) \<Rightarrow> startsWith event ''amara:'' \<and> delegates \<noteq> [])"

definition accepted :: "string \<Rightarrow> bool" where
  "accepted k \<longleftrightarrow> parseSpec k \<noteq> None \<and> \<not> delegatedLifecycle k"

text \<open>The closure that \<open>addHandlerForEvent\<close> creates for an accepted entry, and its type.\<close>

definition closureOf :: "nat \<Rightarrow> node \<Rightarrow> string \<times> userHandler \<Rightarrow> wrapper" where
  "closureOf c t entry =
     (case parseSpec (fst entry) of
        Some (event, meta, delegates) \<Rightarrow>
          \<lparr>wid = c, whandler = snd entry, wdelegates = delegates, wmeta = meta, wdispatcher = t\<rparr>
      | None \<Rightarrow>
          \<lparr>wid = c, whandler = snd entry, wdelegates = [], wmeta = [], wdispatcher = t\<rparr>)"

definition eventOf :: "string \<Rightarrow> string" where
  "eventOf k = (case parseSpec k of Some (event, meta, delegates) \<Rightarrow> event | None \<Rightarrow> [])"

definition bind :: "node \<Rightarrow> string \<times> userHandler \<Rightarrow> state \<Rightarrow> state" where
  "bind t entry s =
     s\<lparr>closures := Suc (closures s),
       listeners := (listeners s)
         (t := listeners s t @ [(eventOf (fst entry), EventHandler (closureOf (closures s) t entry))]),
       targetHandlers := (targetHandlers s)
         (t \<mapsto> push (eventOf (fst entry)) (closureOf (closures s) t entry)
                 (case targetHandlers s t of None \<Rightarrow> [] | Some m \<Rightarrow> m))\<rparr>"

lemma addHandlerForEvent_TypeError:
  "parseSpec (fst entry) = None \<Longrightarrow> addHandlerForEvent this entry s = Threw TypeError s"
  by (auto simp: addHandlerForEvent_def parseSpec_def split: option.splits list.splits)

lemma addHandlerForEvent_DelegationNotAllowed:
  "delegatedLifecycle (fst entry) \<Longrightarrow> addHandlerForEvent this entry s = Threw DelegationNotAllowed s"
  by (auto simp: addHandlerForEvent_def delegatedLifecycle_def parseSpec_def
      split: option.splits list.splits)

lemma addHandlerForEvent_accepted:
  assumes "accepted (fst entry)"
    and "(eventOf (fst entry), EventHandler (closureOf (closures s) (ctarget this) entry))
           \<notin> set (listeners s (ctarget this))"
  shows "addHandlerForEvent this entry s =
     Returned (this\<lparr>added := added this \<or> targetHandlers s (ctarget this) = None\<rparr>,
               bind (ctarget this) entry s)"
proof -
  from assms(1) obtain event meta delegates where
    p: "parseSpec (fst entry) = Some (event, meta, delegates)"
    and a: "\<not> (startsWith event ''amara:'' \<and> delegates \<noteq> [])"
    by (auto simp: accepted_def delegatedLifecycle_def)
  from p obtain eventMeta selectors where
    r: "rxEventAndSelectors (fst entry) = Some (eventMeta, selectors)"
    and m: "parseEventMeta eventMeta = event # meta"
    and d: "parseDelegates selectors = delegates"
    by (auto simp: parseSpec_def split: option.splits list.splits)
  have c: "closureOf (closures s) (ctarget this) entry =
      \<lparr>wid = closures s, whandler = snd entry, wdelegates = delegates, wmeta = meta,
       wdispatcher = ctarget this\<rparr>"
    by (simp add: closureOf_def p)
  have e: "eventOf (fst entry) = event"
    by (simp add: eventOf_def p)
  from assms(2) have n: "(event, EventHandler \<lparr>wid = closures s, whandler = snd entry,
      wdelegates = delegates, wmeta = meta, wdispatcher = ctarget this\<rparr>)
      \<notin> set (listeners s (ctarget this))"
    by (simp add: c e)
  show ?thesis
  proof (cases "targetHandlers s (ctarget this)")
    case None
    then show ?thesis
      using a n r m d
      by (simp add: addHandlerForEvent_def Let_def bind_def c e addEventListener_def)
  next
    case (Some mp)
    then show ?thesis
      using a n r m d
      by (simp add: addHandlerForEvent_def Let_def bind_def c e addEventListener_def)
  qed
qed

lemma wid_closureOf [simp]: "wid (closureOf c t entry) = c"
  by (simp add: closureOf_def split: option.split prod.split)

lemma whandler_closureOf [simp]: "whandler (closureOf c t entry) = snd entry"
  by (simp add: closureOf_def split: option.split prod.split)

lemma entriesOf_simps [simp]:
  "entriesOf [] = []"
  "entriesOf ((ty, ws) # m) = map (\<lambda>w. (ty, EventHandler w)) ws @ entriesOf m"
  "entriesOf (m @ m') = entriesOf m @ entriesOf m'"
  by (simp_all add: entriesOf_def)

lemma entriesOf_pushed:
  "set (entriesOf (map (\<lambda>(ty, ws). if ty = ev then (ty, ws @ [w]) else (ty, ws)) m))
      = (if ev \<in> fst ` set m then {(ev, EventHandler w)} else {}) \<union> set (entriesOf m)"
proof (induction m)
  case Nil
  then show ?case by simp
next
  case (Cons x m)
  obtain ty ws where x: "x = (ty, ws)" by (cases x)
  show ?case
  proof (cases "ty = ev")
    case True
    with Cons x show ?thesis by auto
  next
    case False
    with Cons x show ?thesis by auto
  qed
qed

lemma entriesOf_push:
  "set (entriesOf (push ev w m)) = insert (ev, EventHandler w) (set (entriesOf m))"
  by (simp add: push_def entriesOf_pushed)

lemma fst_push: "map fst (push ev w m) = (if ev \<in> fst ` set m then map fst m else map fst m @ [ev])"
proof -
  have "map fst (map (\<lambda>(ty, ws). if ty = ev then (ty, ws @ [w]) else (ty, ws)) m) = map fst m"
    by (induction m) auto
  then show ?thesis by (simp add: push_def)
qed

lemma distinct_push: "distinct (map fst m) \<Longrightarrow> distinct (map fst (push ev w m))"
  by (simp add: fst_push)

lemma bind_fields [simp]:
  "closures (bind t entry s) = Suc (closures s)"
  "trace (bind t entry s) = trace s"
  "async (bind t entry s) = async s"
  "root (bind t entry s) = root s"
  "matches (bind t entry s) = matches s"
  "attributes (bind t entry s) = attributes s"
  "targetHandlers (bind t entry s) t \<noteq> None"
  "n \<noteq> t \<Longrightarrow> targetHandlers (bind t entry s) n = targetHandlers s n"
  "n \<noteq> t \<Longrightarrow> listeners (bind t entry s) n = listeners s n"
  "listeners (bind t entry s) t =
     listeners s t @ [(eventOf (fst entry), EventHandler (closureOf (closures s) t entry))]"
  by (simp_all add: bind_def)

lemma bound_bind:
  "bound (bind t entry s) t =
     bound s t @ [(eventOf (fst entry), EventHandler (closureOf (closures s) t entry))]"
  "n \<noteq> t \<Longrightarrow> bound (bind t entry s) n = bound s n"
  by (simp_all add: bound_def)

lemma fresh_closure:
  "consistent s \<Longrightarrow> (ev, EventHandler (closureOf (closures s) t entry)) \<notin> set (listeners s n)"
proof
  assume c: "consistent s" and "(ev, EventHandler (closureOf (closures s) t entry)) \<in> set (listeners s n)"
  then have "(ev, EventHandler (closureOf (closures s) t entry)) \<in> set (bound s n)"
    by (simp add: mem_bound)
  with c have "wid (closureOf (closures s) t entry) < closures s"
    unfolding consistent_def by blast
  then show False by simp
qed

lemma consistent_bind:
  assumes c: "consistent s"
  shows "consistent (bind t entry s)"
proof -
  let ?x = "(eventOf (fst entry), EventHandler (closureOf (closures s) t entry))"
  let ?m = "case targetHandlers s t of None \<Rightarrow> [] | Some m \<Rightarrow> m"
  have r: "set (entriesOf ?m) = registered s t"
    by (simp add: registered_def split: option.split)
  have 1: "\<And>n. set (bound (bind t entry s) n) = registered (bind t entry s) n"
  proof -
    fix n
    show "set (bound (bind t entry s) n) = registered (bind t entry s) n"
    proof (cases "n = t")
      case True
      have "registered (bind t entry s) t = insert ?x (registered s t)"
        using r by (simp add: registered_def bind_def entriesOf_push)
      then show ?thesis
        using True c by (simp add: bound_bind consistent_def)
    next
      case False
      then show ?thesis
        using c by (simp add: bound_bind consistent_def registered_def)
    qed
  qed
  have 2: "\<And>n ty w. (ty, EventHandler w) \<in> set (bound (bind t entry s) n)
      \<Longrightarrow> wid w < closures (bind t entry s)"
  proof -
    fix n ty w
    assume a: "(ty, EventHandler w) \<in> set (bound (bind t entry s) n)"
    have "(ty, EventHandler w) \<in> set (bound s n) \<or> w = closureOf (closures s) t entry"
      using a by (cases "n = t") (auto simp: bound_bind)
    then show "wid w < closures (bind t entry s)"
    proof
      assume "(ty, EventHandler w) \<in> set (bound s n)"
      with c have "wid w < closures s"
        unfolding consistent_def by blast
      then show ?thesis by simp
    next
      assume "w = closureOf (closures s) t entry"
      then show ?thesis by simp
    qed
  qed
  have 3: "\<And>n m. targetHandlers (bind t entry s) n = Some m \<Longrightarrow> distinct (map fst m)"
  proof -
    fix n m
    assume a: "targetHandlers (bind t entry s) n = Some m"
    have d: "distinct (map fst ?m)"
      using c by (auto simp: consistent_def split: option.split)
    show "distinct (map fst m)"
    proof (cases "n = t")
      case True
      with a have "m = push (eventOf (fst entry)) (closureOf (closures s) t entry) ?m"
        by (simp add: bind_def)
      with d show ?thesis by (simp add: distinct_push)
    next
      case False
      with a c show ?thesis by (simp add: consistent_def)
    qed
  qed
  have 4: "\<And>n. distinct (listeners (bind t entry s) n)"
  proof -
    fix n
    have "distinct (listeners s n)"
      using c by (simp add: consistent_def)
    then show "distinct (listeners (bind t entry s) n)"
      using fresh_closure [OF c, of "eventOf (fst entry)" t entry t]
      by (cases "n = t") simp_all
  qed
  show ?thesis
    unfolding consistent_def using 1 2 3 4 by blast
qed

text \<open>Binding the entries of a call, in order.\<close>

fun bindAll :: "node \<Rightarrow> eventMap \<Rightarrow> state \<Rightarrow> state" where
  "bindAll t [] s = s"
| "bindAll t (entry # entries) s = bindAll t entries (bind t entry s)"

text \<open>The listeners that binding the entries attaches, the first closure being number \<open>c\<close>.\<close>

fun bindings :: "nat \<Rightarrow> node \<Rightarrow> eventMap \<Rightarrow> (string \<times> listener) list" where
  "bindings c t [] = []"
| "bindings c t (entry # entries) =
     (eventOf (fst entry), EventHandler (closureOf c t entry)) # bindings (Suc c) t entries"

lemma consistent_bindAll: "consistent s \<Longrightarrow> consistent (bindAll t es s)"
  by (induction es arbitrary: s) (simp_all add: consistent_bind)

lemma bindAll_fields [simp]:
  "closures (bindAll t es s) = closures s + length es"
  "trace (bindAll t es s) = trace s"
  "async (bindAll t es s) = async s"
  "root (bindAll t es s) = root s"
  "matches (bindAll t es s) = matches s"
  "attributes (bindAll t es s) = attributes s"
  by (induction es arbitrary: s) simp_all

lemma bindAll_other:
  "n \<noteq> t \<Longrightarrow> targetHandlers (bindAll t es s) n = targetHandlers s n"
  "n \<noteq> t \<Longrightarrow> listeners (bindAll t es s) n = listeners s n"
  by (induction es arbitrary: s) simp_all

lemma bindAll_entry:
  "targetHandlers (bindAll t es s) t = None \<longleftrightarrow> targetHandlers s t = None \<and> es = []"
  by (induction es arbitrary: s) simp_all

lemma bound_bindAll: "bound (bindAll t es s) t = bound s t @ bindings (closures s) t es"
  by (induction es arbitrary: s) (simp_all add: bound_bind)

lemma applyEventMap_accepted:
  assumes "consistent s" and "\<forall>entry \<in> set es. accepted (fst entry)"
  shows "applyEventMap this es s =
     Returned (this\<lparr>added := added this \<or> (es \<noteq> [] \<and> targetHandlers s (ctarget this) = None)\<rparr>,
               bindAll (ctarget this) es s)"
  using assms
proof (induction es arbitrary: this s)
  case Nil
  then show ?case by simp
next
  case (Cons entry es)
  let ?ctx = "this\<lparr>added := added this \<or> targetHandlers s (ctarget this) = None\<rparr>"
  have a: "addHandlerForEvent this entry s = Returned (?ctx, bind (ctarget this) entry s)"
    using Cons.prems fresh_closure [OF Cons.prems(1)]
    by (intro addHandlerForEvent_accepted) simp_all
  have c: "consistent (bind (ctarget this) entry s)"
    by (rule consistent_bind [OF Cons.prems(1)])
  have "applyEventMap ?ctx es (bind (ctarget this) entry s) =
      Returned (?ctx\<lparr>added := added ?ctx \<or>
          (es \<noteq> [] \<and> targetHandlers (bind (ctarget this) entry s) (ctarget ?ctx) = None)\<rparr>,
        bindAll (ctarget ?ctx) es (bind (ctarget this) entry s))"
    using Cons.prems by (intro Cons.IH [OF c]) simp
  then show ?case
    using a by simp
qed

lemma applyEventMap_append:
  "applyEventMap this (es @ es') s =
     (case applyEventMap this es s of
        Threw err s' \<Rightarrow> Threw err s'
      | Returned (this', s') \<Rightarrow> applyEventMap this' es' s')"
  by (induction es arbitrary: this s) (simp_all split: result.split prod.split)

lemma applyEventMaps_concat: "applyEventMaps this results s = applyEventMap this (concat results) s"
  by (induction results arbitrary: this s)
    (simp_all add: applyEventMap_append split: result.split prod.split)

lemma applyEventMap_Returned_accepted:
  "applyEventMap this es s = Returned r \<Longrightarrow> \<forall>entry \<in> set es. accepted (fst entry)"
proof (induction es arbitrary: this s)
  case Nil
  then show ?case by simp
next
  case (Cons entry es)
  have "accepted (fst entry)"
  proof (rule ccontr)
    assume "\<not> accepted (fst entry)"
    then have "parseSpec (fst entry) = None \<or> delegatedLifecycle (fst entry)"
      unfolding accepted_def by blast
    then have "\<exists>err. addHandlerForEvent this entry s = Threw err s"
      using addHandlerForEvent_TypeError addHandlerForEvent_DelegationNotAllowed by blast
    with Cons.prems show False by auto
  qed
  moreover have "\<forall>entry \<in> set es. accepted (fst entry)"
  proof (cases "addHandlerForEvent this entry s")
    case (Returned p)
    with Cons.prems show ?thesis
      by (cases p) (auto dest: Cons.IH)
  next
    case (Threw err s')
    with Cons.prems show ?thesis by simp
  qed
  ultimately show ?case by simp
qed

section \<open>Which handlers an event calls\<close>

text \<open>The two filters of \<open>eventHandler\<close>: the wrapper lets the event through to its handler.\<close>

definition admits :: "(node \<Rightarrow> string \<Rightarrow> bool option) \<Rightarrow> wrapper \<Rightarrow> event \<Rightarrow> bool" where
  "admits sel w e \<longleftrightarrow>
     (wdelegates w = [] \<or> some (sel (target e)) (wdelegates w) = Some True) \<and>
     (wmeta w = [] \<or> toLowerCase (metaValue e) \<in> set (wmeta w))"

text \<open>
  The names of the handlers that the listeners of a node call for an event, in the order
  of the listeners, when \<open>sel\<close> is what \<open>Element.matches\<close> answers at each test; and the
  names of the handlers that a list of observations shows as called with \<open>this\<close> a given
  node, in the order of the calls.
\<close>

fun firedBy :: "(node \<Rightarrow> string \<Rightarrow> bool option) \<Rightarrow> event \<Rightarrow> (string \<times> listener) list \<Rightarrow> string list" where
  "firedBy sel e [] = []"
| "firedBy sel e ((ty, ProxyToAmara) # ls) = firedBy sel e ls"
| "firedBy sel e ((ty, EventHandler w) # ls) =
     (if ty = etype e \<and> admits sel w e then hname (whandler w) # firedBy sel e ls
      else firedBy sel e ls)"

fun calledOn :: "node \<Rightarrow> obs list \<Rightarrow> string list" where
  "calledOn n [] = []"
| "calledOn n (Called h this e kids # os) = (if this = n then h # calledOn n os else calledOn n os)"
| "calledOn n (Dispatched m e kids # os) = calledOn n os"
| "calledOn n (HostDispatch a # os) = calledOn n os"
| "calledOn n (Uncaught err # os) = calledOn n os"

text \<open>
  Handlers change attributes, and \<open>prePatchDisabledBug\<close> removes \<open>disabled\<close>, while an
  event is delivered, so that a selector may match for one listener and not for the next.
  The listeners of an event are steady when the answer of \<open>Element.matches\<close> for the
  event's target and each of their selectors does not depend on the attributes.
\<close>

definition steady ::
  "((node \<Rightarrow> string \<rightharpoonup> string) \<Rightarrow> node \<Rightarrow> string \<Rightarrow> bool option) \<Rightarrow> event \<Rightarrow> (string \<times> listener) list \<Rightarrow> bool" where
  "steady m e ls \<longleftrightarrow>
     (\<forall>ty w x a a'. (ty, EventHandler w) \<in> set ls \<longrightarrow> ty = etype e \<longrightarrow> x \<in> set (wdelegates w) \<longrightarrow>
        m a (target e) x = m a' (target e) x)"

lemma calledOn_append [simp]: "calledOn n (xs @ ys) = calledOn n xs @ calledOn n ys"
  by (induction n xs rule: calledOn.induct) simp_all

lemma firedBy_append [simp]: "firedBy sel e (xs @ ys) = firedBy sel e xs @ firedBy sel e ys"
  by (induction sel e xs rule: firedBy.induct) simp_all

lemma firedBy_bound: "firedBy sel e (bound s n) = firedBy sel e (listeners s n)"
proof -
  have "firedBy sel e (filter (\<lambda>x. snd x \<noteq> ProxyToAmara) ls) = firedBy sel e ls" for ls
    by (induction sel e ls rule: firedBy.induct) simp_all
  then show ?thesis by (simp add: bound_def)
qed

lemma some_eq: "\<forall>x \<in> set xs. f x = g x \<Longrightarrow> some f xs = some g xs"
  by (induction xs) (simp_all split: option.split bool.split)

lemma steady_Cons: "steady m e (x # ls) \<Longrightarrow> steady m e ls"
  by (simp add: steady_def)

lemma steady_admits:
  assumes "steady m e ((etype e, EventHandler w) # ls)"
  shows "admits (m a) w e = admits (m a') w e"
proof -
  have "\<forall>x \<in> set (wdelegates w). m a (target e) x = m a' (target e) x"
    using assms by (simp add: steady_def)
  then have "some (m a (target e)) (wdelegates w) = some (m a' (target e)) (wdelegates w)"
    by (rule some_eq)
  then show ?thesis
    by (simp add: admits_def)
qed

lemma steady_firedBy: "steady m e ls \<Longrightarrow> firedBy (m a) e ls = firedBy (m a') e ls"
proof (induction ls)
  case Nil
  then show ?case by simp
next
  case (Cons x ls)
  obtain ty l where x: "x = (ty, l)" by (cases x)
  have ih: "firedBy (m a) e ls = firedBy (m a') e ls"
    by (rule Cons.IH [OF steady_Cons [OF Cons.prems]])
  show ?case
  proof (cases l)
    case ProxyToAmara
    with ih x show ?thesis by simp
  next
    case (EventHandler w)
    show ?thesis
    proof (cases "ty = etype e")
      case True
      have "admits (m a) w e = admits (m a') w e"
        using Cons.prems unfolding x EventHandler True by (rule steady_admits)
      with ih x EventHandler show ?thesis by simp
    next
      case False
      with ih x EventHandler show ?thesis by simp
    qed
  qed
qed

lemma steady_bound: "steady m e (bound s n) = steady m e (listeners s n)"
  by (simp add: steady_def mem_bound)

text \<open>The listeners that declare no selector are steady.\<close>

lemma steady_undelegated:
  "\<forall>ty w. (ty, EventHandler w) \<in> set ls \<longrightarrow> ty = etype e \<longrightarrow> wdelegates w = [] \<Longrightarrow> steady m e ls"
  unfolding steady_def by (metis empty_iff list.set(1))

lemma trace_call:
  "\<exists>kids. trace (final (call d w this e s)) = trace s @ [Called (hname (whandler w)) this e kids]"
  by (cases "run d (wdispatcher w) (body (whandler w)) (s\<lparr>trace := []\<rparr>)")
    (simp_all add: call_def Let_def)

lemma eventHandler_admits:
  "admits (matches s (attributes s)) w e \<Longrightarrow>
     eventHandler d w this e s =
       (case call d w this e (s\<lparr>async := False\<rparr>) of
          Returned s' \<Rightarrow> Returned (s'\<lparr>async := True\<rparr>)
        | Threw err s' \<Rightarrow> Threw err s')"
  by (auto simp: eventHandler_def admits_def)

lemma eventHandler_rejects:
  "\<not> admits (matches s (attributes s)) w e \<Longrightarrow>
     eventHandler d w this e s =
       (if wdelegates w \<noteq> [] \<and> some (matches s (attributes s) (target e)) (wdelegates w) = None
        then Threw SyntaxError s else Returned s)"
  by (auto simp: eventHandler_def admits_def split: option.split bool.split)

lemma calledOn_eventHandler:
  "calledOn n (trace (final (eventHandler d w this e s))) =
     calledOn n (trace s) @
       (if n = this \<and> admits (matches s (attributes s)) w e then [hname (whandler w)] else [])"
proof (cases "admits (matches s (attributes s)) w e")
  case False
  then show ?thesis
    by (simp add: eventHandler_rejects)
next
  case True
  obtain kids where k: "trace (final (call d w this e (s\<lparr>async := False\<rparr>)))
      = trace s @ [Called (hname (whandler w)) this e kids]"
    using trace_call [of d w this e "s\<lparr>async := False\<rparr>"] by auto
  have "trace (final (eventHandler d w this e s)) = trace (final (call d w this e (s\<lparr>async := False\<rparr>)))"
    by (cases "call d w this e (s\<lparr>async := False\<rparr>)") (simp_all add: eventHandler_admits [OF True])
  with k True show ?thesis by simp
qed

lemma calledOn_callListener:
  "calledOn n (trace (callListener d l this e s)) =
     calledOn n (trace s) @
       (if n = this then firedBy (matches s (attributes s)) e [(etype e, l)] else [])"
proof (cases l)
  case ProxyToAmara
  then show ?thesis by (simp add: callListener_def proxyToAmara_def)
next
  case (EventHandler w)
  have "calledOn n (trace (callListener d l this e s)) =
      calledOn n (trace (final (eventHandler d w this e s)))"
    using EventHandler by (cases "eventHandler d w this e s") (simp_all add: callListener_def)
  then show ?thesis
    using EventHandler by (simp add: calledOn_eventHandler)
qed

lemma attached_keeps:
  assumes "keeps s s'"
  shows "(ty, EventHandler w) \<in> set (listeners s' n) \<longleftrightarrow> (ty, EventHandler w) \<in> set (listeners s n)"
proof -
  have "bound s' n = bound s n"
    using assms by (simp add: keeps_def)
  then show ?thesis
    using mem_bound [of ty w s' n] mem_bound [of ty w s n] by simp
qed

text \<open>
  The listeners of a snapshot that are bound listeners are still attached when their
  turn comes: calling handlers detaches none of them. When they are steady, those that
  let the event through can be told from the attributes at the start.
\<close>

lemma calledOn_invoke_other:
  assumes f: "frame d" and n: "n \<noteq> this"
  shows "calledOn n (trace (invoke d ls this e s)) = calledOn n (trace s)"
proof (induction ls arbitrary: s)
  case Nil
  then show ?case by simp
next
  case (Cons x ls)
  obtain ty l where x: "x = (ty, l)" by (cases x)
  have "calledOn n (trace (invoke d ls this e (callListener d l this e s))) =
      calledOn n (trace (callListener d l this e s))"
    by (rule Cons.IH)
  also have "\<dots> = calledOn n (trace s)"
    using n by (simp add: calledOn_callListener)
  finally show ?case
    using Cons.IH [of s] by (simp add: x)
qed

lemma calledOn_invoke:
  assumes f: "frame d"
    and sub: "\<forall>ty w. (ty, EventHandler w) \<in> set ls \<longrightarrow> (ty, EventHandler w) \<in> set (listeners s this)"
    and st: "steady (matches s) e ls"
  shows "calledOn this (trace (invoke d ls this e s)) =
     calledOn this (trace s) @ firedBy (matches s (attributes s)) e ls"
  using sub st
proof (induction ls arbitrary: s)
  case Nil
  then show ?case by simp
next
  case (Cons x ls)
  obtain ty l where x: "x = (ty, l)" by (cases x)
  let ?s1 = "callListener d l this e s"
  have k: "keeps s ?s1"
    by (rule keeps_callListener [OF f])
  have m: "matches ?s1 = matches s"
    using k by (simp add: keeps_def)
  have sub1: "\<forall>ty w. (ty, EventHandler w) \<in> set ls \<longrightarrow> (ty, EventHandler w) \<in> set (listeners ?s1 this)"
    using Cons.prems(1) attached_keeps [OF k] by simp
  have sub0: "\<forall>ty w. (ty, EventHandler w) \<in> set ls \<longrightarrow> (ty, EventHandler w) \<in> set (listeners s this)"
    using Cons.prems(1) by simp
  have st0: "steady (matches s) e ls"
    by (rule steady_Cons [OF Cons.prems(2)])
  have st1: "steady (matches ?s1) e ls"
    unfolding m by (rule st0)
  have same: "firedBy (matches s (attributes ?s1)) e ls = firedBy (matches s (attributes s)) e ls"
    by (rule steady_firedBy [OF st0])
  show ?case
  proof (cases "ty = etype e \<and> (ty, l) \<in> set (listeners s this)")
    case True
    have "invoke d (x # ls) this e s = invoke d ls this e ?s1"
      unfolding x invoke.simps using True by (rule if_P)
    then have "calledOn this (trace (invoke d (x # ls) this e s)) =
        calledOn this (trace (invoke d ls this e ?s1))"
      by simp
    also have "\<dots> = calledOn this (trace ?s1) @ firedBy (matches ?s1 (attributes ?s1)) e ls"
      by (rule Cons.IH [OF sub1 st1])
    also have "\<dots> = (calledOn this (trace s) @ firedBy (matches s (attributes s)) e [(etype e, l)]) @
        firedBy (matches s (attributes s)) e ls"
      by (simp only: calledOn_callListener m same simp_thms if_True)
    also have "\<dots> = calledOn this (trace s) @ firedBy (matches s (attributes s)) e (x # ls)"
    proof -
      have "x # ls = [(etype e, l)] @ ls"
        using True x by simp
      then have "firedBy (matches s (attributes s)) e (x # ls) =
          firedBy (matches s (attributes s)) e [(etype e, l)] @ firedBy (matches s (attributes s)) e ls"
        by (simp only: firedBy_append)
      then show ?thesis by simp
    qed
    finally show ?thesis .
  next
    case False
    have skip: "firedBy (matches s (attributes s)) e (x # ls) = firedBy (matches s (attributes s)) e ls"
    proof (cases l)
      case ProxyToAmara
      then show ?thesis by (simp add: x)
    next
      case (EventHandler w)
      with Cons.prems(1) x have "(ty, l) \<in> set (listeners s this)" by simp
      with False have "ty \<noteq> etype e" by simp
      then show ?thesis by (simp add: x EventHandler)
    qed
    have "invoke d (x # ls) this e s = invoke d ls this e s"
      unfolding x invoke.simps using False by (rule if_not_P)
    then have "calledOn this (trace (invoke d (x # ls) this e s)) = calledOn this (trace (invoke d ls this e s))"
      by simp
    also have "\<dots> = calledOn this (trace s) @ firedBy (matches s (attributes s)) e ls"
      by (rule Cons.IH [OF sub0 st0])
    finally show ?thesis
      by (simp add: skip)
  qed
qed

lemma calledOn_visit_other:
  "frame d \<Longrightarrow> n \<notin> set path \<Longrightarrow> calledOn n (trace (visit d path e s)) = calledOn n (trace s)"
proof (induction path arbitrary: s)
  case Nil
  then show ?case by simp
next
  case (Cons this path)
  have "calledOn n (trace (invoke d (listeners s this) this e s)) = calledOn n (trace s)"
    using Cons.prems by (intro calledOn_invoke_other) auto
  moreover have "calledOn n (trace (visit d path e (invoke d (listeners s this) this e s)))
      = calledOn n (trace (invoke d (listeners s this) this e s))"
    using Cons.prems by (intro Cons.IH) simp_all
  ultimately show ?case by simp
qed

lemma ancestors_shorter: "a \<in> set (ancestors n) \<Longrightarrow> length a < length n"
  by (induction n rule: ancestors.induct) auto

lemma not_own_ancestor: "n \<notin> set (ancestors n)"
  using ancestors_shorter [of n n] by auto

text \<open>
  A \<open>dispatchEvent\<close> on a node is observed as one entry, and the handlers it calls on
  that node are those that the node's bound listeners let the event through to.
\<close>

lemma dispatchEvent_calls:
  assumes f: "frame d"
  shows "\<exists>kids. trace (dispatchEvent d n e s) = trace s @ [Dispatched n (e\<lparr>target := n\<rparr>) kids] \<and>
     (steady (matches s) (e\<lparr>target := n\<rparr>) (bound s n) \<longrightarrow>
        calledOn n kids = firedBy (matches s (attributes s)) (e\<lparr>target := n\<rparr>) (bound s n))"
proof -
  let ?e = "e\<lparr>target := n\<rparr>"
  let ?s0 = "s\<lparr>trace := []\<rparr>"
  let ?path = "if bubbles ?e then ancestors n else []"
  let ?s1 = "invoke d (listeners ?s0 n) n ?e ?s0"
  have 1: "calledOn n (trace ?s1) = firedBy (matches s (attributes s)) ?e (listeners s n)"
    if "steady (matches s) ?e (bound s n)"
    using calledOn_invoke [OF f, of "listeners ?s0 n" ?s0 n ?e] that
    by (simp add: steady_bound)
  have "n \<notin> set ?path"
    by (simp add: not_own_ancestor)
  then have 2: "calledOn n (trace (visit d ?path ?e ?s1)) = calledOn n (trace ?s1)"
    by (rule calledOn_visit_other [OF f])
  have "trace (dispatchEvent d n e s) = trace s @ [Dispatched n ?e (trace (visit d ?path ?e ?s1))]"
    by (simp add: dispatchEvent_def Let_def)
  with 1 2 show ?thesis
    by (simp add: firedBy_bound)
qed

text \<open>The event that \<open>syncDispatch\<close> makes of a lifecycle action.\<close>

definition lifecycleEvent :: "node \<Rightarrow> string \<Rightarrow> event" where
  "lifecycleEvent t ty =
     \<lparr>etype = ty, target = t, bubbles = False, key = Undefined, button = Undefined,
      detail = Some (Action ty Undefined)\<rparr>"

lemma prePatch_trace [simp]: "trace (snd (prePatchDisabledBug t s)) = trace s"
proof -
  have "trace (call_removeAttribute f t a s') = trace s'" for f a s'
    by (induction f) simp_all
  then show ?thesis
    by (simp add: prePatchDisabledBug_def Let_def)
qed

lemma postPatch_trace [simp]: "trace (postPatchDisabledBug t m s) = trace s"
proof -
  have "trace (call_removeAttribute f t a s') = trace s'" for f a s'
    by (induction f) simp_all
  moreover have "trace (call_setAttribute f t a v s') = trace s'" for f a v s'
    by (induction f) simp_all
  ultimately show ?thesis
    by (simp add: postPatchDisabledBug_def Let_def)
qed

lemma dispatchActionAsEvent_calls:
  assumes f: "frame d" and a: "\<not> async s"
  shows "\<exists>s' kids. dispatchActionAsEvent d t act b s = Returned s' \<and> keeps s s' \<and>
     trace s' = trace s @ [Dispatched t \<lparr>etype = atype act, target = t, bubbles = b, key = Undefined,
        button = Undefined, detail = Some act\<rparr> kids] \<and>
     (steady (matches s) \<lparr>etype = atype act, target = t, bubbles = b, key = Undefined,
        button = Undefined, detail = Some act\<rparr> (bound s t) \<longrightarrow>
      calledOn t kids = firedBy (matches s (attributes s)) \<lparr>etype = atype act, target = t, bubbles = b,
        key = Undefined, button = Undefined, detail = Some act\<rparr> (bound s t))"
proof -
  define s1 where "s1 = (case root s of
      Some r \<Rightarrow> addEventListener r (atype act) ProxyToAmara s | None \<Rightarrow> s)"
  define ce where "ce = \<lparr>etype = atype act, target = t, bubbles = b, key = Undefined,
      button = Undefined, detail = Some act\<rparr>"
  define m where "m = fst (prePatchDisabledBug t s1)"
  define s2 where "s2 = snd (prePatchDisabledBug t s1)"
  define s3 where "s3 = dispatchEvent d t ce s2"
  define s4 where "s4 = postPatchDisabledBug t m s3"
  define s5 where "s5 = (case root s4 of
      Some r \<Rightarrow> removeEventListener r (atype act) ProxyToAmara s4 | None \<Rightarrow> s4)"
  have r: "dispatchActionAsEvent d t act b s = Returned s5"
    unfolding dispatchActionAsEvent_def Let_def s5_def s4_def s3_def s2_def m_def s1_def ce_def
      case_prod_beta
    using a by simp
  have k: "keeps s s5"
    using keeps_dispatchActionAsEvent [OF f, of s t act b] r by simp
  have k1: "keeps s s1"
    by (simp add: s1_def keeps_addProxy split: option.split)
  have k2: "keeps s1 s2"
    unfolding s2_def by (rule keeps_prePatch)
  have k12: "keeps s s2"
    by (rule keeps_trans [OF k1 k2])
  have t1: "trace s1 = trace s"
    by (simp add: s1_def addEventListener_def split: option.split)
  have t2: "trace s2 = trace s"
    by (simp add: s2_def t1)
  obtain kids where t3: "trace s3 = trace s2 @ [Dispatched t (ce\<lparr>target := t\<rparr>) kids]"
    and c: "steady (matches s2) (ce\<lparr>target := t\<rparr>) (bound s2 t) \<longrightarrow>
      calledOn t kids = firedBy (matches s2 (attributes s2)) (ce\<lparr>target := t\<rparr>) (bound s2 t)"
    using dispatchEvent_calls [OF f, of t ce s2] unfolding s3_def by blast
  have t5: "trace s5 = trace s3"
    by (simp add: s5_def s4_def removeEventListener_def split: option.split)
  have e: "ce\<lparr>target := t\<rparr> = ce"
    by (simp add: ce_def)
  have ms: "matches s2 = matches s" "bound s2 t = bound s t"
    using k12 by (simp_all add: keeps_def)
  have tr: "trace s5 = trace s @ [Dispatched t ce kids]"
    using t3 t5 t2 e by simp
  have c': "calledOn t kids = firedBy (matches s (attributes s)) ce (bound s t)"
    if st: "steady (matches s) ce (bound s t)"
  proof -
    have "calledOn t kids = firedBy (matches s (attributes s2)) ce (bound s t)"
      using c st by (simp add: ms e)
    also have "\<dots> = firedBy (matches s (attributes s)) ce (bound s t)"
      by (rule steady_firedBy [OF st])
    finally show ?thesis .
  qed
  from r k tr c' show ?thesis
    unfolding ce_def by blast
qed

lemma syncDispatch_calls:
  "\<exists>s' kids. syncDispatch (getTargetDispatcher k t) (Action ty Undefined) s = Returned s' \<and>
     keeps s s' \<and> async s' \<and>
     trace s' = trace s @ [Dispatched t (lifecycleEvent t ty) kids] \<and>
     (steady (matches s) (lifecycleEvent t ty) (bound s t) \<longrightarrow>
        calledOn t kids = firedBy (matches s (attributes s)) (lifecycleEvent t ty) (bound s t))"
proof -
  let ?s0 = "s\<lparr>async := False\<rparr>"
  have "\<exists>d. frame d \<and> getTargetDispatcher k = dispatchActionAsEvent d"
  proof (cases k)
    case 0
    have "frame (\<lambda>tgt action bub s. Threw RangeError s)"
      by (simp add: frame_def)
    with 0 show ?thesis by auto
  next
    case (Suc j)
    then show ?thesis
      using frame_getTargetDispatcher [of j] by auto
  qed
  then obtain d where f: "frame d" and g: "getTargetDispatcher k = dispatchActionAsEvent d"
    by blast
  have "\<not> async ?s0" by simp
  from dispatchActionAsEvent_calls [OF f this, of t "Action ty Undefined" False]
  obtain s' kids where r: "dispatchActionAsEvent d t (Action ty Undefined) False ?s0 = Returned s'"
    and k: "keeps ?s0 s'"
    and tr: "trace s' = trace ?s0 @ [Dispatched t (lifecycleEvent t ty) kids]"
    and c: "steady (matches ?s0) (lifecycleEvent t ty) (bound ?s0 t) \<longrightarrow>
      calledOn t kids = firedBy (matches ?s0 (attributes ?s0)) (lifecycleEvent t ty) (bound ?s0 t)"
    unfolding lifecycleEvent_def by auto
  have 1: "syncDispatch (getTargetDispatcher k t) (Action ty Undefined) s = Returned (s'\<lparr>async := True\<rparr>)"
    using r g by (simp add: syncDispatch_def)
  have 2: "keeps s (s'\<lparr>async := True\<rparr>)"
    using k by simp
  have 3: "trace (s'\<lparr>async := True\<rparr>) = trace s @ [Dispatched t (lifecycleEvent t ty) kids]"
    using tr by simp
  have 4: "steady (matches s) (lifecycleEvent t ty) (bound s t) \<longrightarrow>
      calledOn t kids = firedBy (matches s (attributes s)) (lifecycleEvent t ty) (bound s t)"
    using c by (simp add: bound_def)
  have 5: "async (s'\<lparr>async := True\<rparr>)"
    by simp
  from 1 2 3 4 5 show ?thesis
    by blast
qed

section \<open>What an apply-call and a removal do\<close>

definition final2 :: "(binding_context \<times> state) result \<Rightarrow> state" where
  "final2 r = (case r of Returned p \<Rightarrow> snd p | Threw err s \<Rightarrow> s)"

lemma addHandlerForEvent_cases:
  assumes "consistent s"
  shows "addHandlerForEvent this entry s =
     (if accepted (fst entry)
      then Returned (this\<lparr>added := added this \<or> targetHandlers s (ctarget this) = None\<rparr>,
                     bind (ctarget this) entry s)
      else Threw (if parseSpec (fst entry) = None then TypeError else DelegationNotAllowed) s)"
proof (cases "accepted (fst entry)")
  case True
  then show ?thesis
    using fresh_closure [OF assms] by (simp add: addHandlerForEvent_accepted)
next
  case False
  then have "parseSpec (fst entry) = None \<or> delegatedLifecycle (fst entry)"
    unfolding accepted_def by blast
  then show ?thesis
    using False
    by (auto simp: addHandlerForEvent_TypeError addHandlerForEvent_DelegationNotAllowed)
qed

text \<open>
  A call that throws leaves the entries bound that came before the one that was not
  accepted.
\<close>

lemma applyEventMap_throws:
  assumes "consistent s" and "\<forall>entry \<in> set pre. accepted (fst entry)" and "\<not> accepted (fst entry)"
  shows "applyEventMap this (pre @ entry # post) s =
     Threw (if parseSpec (fst entry) = None then TypeError else DelegationNotAllowed)
       (bindAll (ctarget this) pre s)"
proof -
  let ?ctx = "this\<lparr>added := added this \<or> (pre \<noteq> [] \<and> targetHandlers s (ctarget this) = None)\<rparr>"
  have 1: "applyEventMap this pre s = Returned (?ctx, bindAll (ctarget this) pre s)"
    by (rule applyEventMap_accepted [OF assms(1,2)])
  have c: "consistent (bindAll (ctarget this) pre s)"
    by (rule consistent_bindAll [OF assms(1)])
  have "applyEventMap ?ctx (entry # post) (bindAll (ctarget this) pre s) =
      Threw (if parseSpec (fst entry) = None then TypeError else DelegationNotAllowed)
        (bindAll (ctarget this) pre s)"
    using assms(3) by (simp add: addHandlerForEvent_cases [OF c])
  with 1 show ?thesis
    by (simp add: applyEventMap_append)
qed

lemma consistent_applyEventMap: "consistent s \<Longrightarrow> consistent (final2 (applyEventMap this es s))"
proof (induction es arbitrary: this s)
  case Nil
  then show ?case by (simp add: final2_def)
next
  case (Cons entry es)
  show ?case
  proof (cases "accepted (fst entry)")
    case True
    have "consistent (bind (ctarget this) entry s)"
      by (rule consistent_bind [OF Cons.prems])
    from Cons.IH [OF this] show ?thesis
      using True by (simp add: addHandlerForEvent_cases [OF Cons.prems])
  next
    case False
    then show ?thesis
      using Cons.prems by (simp add: addHandlerForEvent_cases [OF Cons.prems] final2_def)
  qed
qed

lemma applyEventsToTarget_unfold:
  "applyEventsToTarget k results t s =
     (case applyEventMap \<lparr>ctarget = t, added = False\<rparr> (concat results) (cleared t s) of
        Threw err s' \<Rightarrow> Threw err s'
      | Returned (context', s2) \<Rightarrow>
          (case (if added context'
                 then syncDispatch (getTargetDispatcher k t) (Action ''amara:add'' Undefined) s2
                 else Returned s2) of
             Threw err s' \<Rightarrow> Threw err s'
           | Returned s3 \<Rightarrow>
               syncDispatch (getTargetDispatcher k t) (Action ''amara:apply'' Undefined) s3))"
  by (simp add: applyEventsToTarget_def cleared_def Let_def applyEventMaps_concat)

text \<open>
  The state in which an apply-call leaves the bindings: those of the target detached, its
  entry cleared, the entries of the call bound.
\<close>

definition rebound :: "node \<Rightarrow> eventMap \<Rightarrow> state \<Rightarrow> state" where
  "rebound t es s = bindAll t es (cleared t s)"

lemma consistent_rebound: "consistent s \<Longrightarrow> consistent (rebound t es s)"
  by (simp add: rebound_def consistent_bindAll consistent_cleared)

lemma bound_rebound: "consistent s \<Longrightarrow> bound (rebound t es s) t = bindings (closures s) t es"
  by (simp add: rebound_def bound_bindAll bound_cleared)

lemma rebound_entry:
  "targetHandlers (rebound t es s) t = None \<longleftrightarrow> targetHandlers s t = None \<and> es = []"
  by (simp add: rebound_def bindAll_entry cleared_registry split: option.split)

lemma rebound_other:
  "n \<noteq> t \<Longrightarrow> targetHandlers (rebound t es s) n = targetHandlers s n"
  "n \<noteq> t \<Longrightarrow> listeners (rebound t es s) n = listeners s n"
  by (simp_all add: rebound_def bindAll_other cleared_registry cleared_listeners_other)

lemma rebound_fields [simp]:
  "trace (rebound t es s) = trace s"
  "matches (rebound t es s) = matches s"
  "root (rebound t es s) = root s"
  "closures (rebound t es s) = closures s + length es"
  "attributes (rebound t es s) = attributes s"
  by (simp_all add: rebound_def)

text \<open>
  An accepted key of a lifecycle event declares no selector, so the bindings of a call
  are steady for the lifecycle events.
\<close>

lemma bindings_lifecycle:
  assumes "\<forall>entry \<in> set es. accepted (fst entry)"
    and "(ty, EventHandler w) \<in> set (bindings c t es)" and "startsWith ty ''amara:''"
  shows "wdelegates w = []"
  using assms
proof (induction es arbitrary: c)
  case Nil
  then show ?case by simp
next
  case (Cons entry es)
  from Cons.prems(2)
  have "(ty = eventOf (fst entry) \<and> w = closureOf c t entry) \<or>
      (ty, EventHandler w) \<in> set (bindings (Suc c) t es)"
    by auto
  then show ?case
  proof
    assume h: "ty = eventOf (fst entry) \<and> w = closureOf c t entry"
    from Cons.prems(1) obtain event meta delegates where
      p: "parseSpec (fst entry) = Some (event, meta, delegates)"
      and a: "\<not> (startsWith event ''amara:'' \<and> delegates \<noteq> [])"
      by (auto simp: accepted_def delegatedLifecycle_def)
    from h p have "ty = event" "wdelegates w = delegates"
      by (simp_all add: eventOf_def closureOf_def)
    with a Cons.prems(3) show ?thesis
      by simp
  next
    assume "(ty, EventHandler w) \<in> set (bindings (Suc c) t es)"
    with Cons.prems show ?thesis
      by (intro Cons.IH [of "Suc c"]) simp_all
  qed
qed

lemma steady_bindings:
  assumes "\<forall>entry \<in> set es. accepted (fst entry)" and "startsWith ty ''amara:''"
  shows "steady m (lifecycleEvent n ty) (bindings c t es)"
proof (rule steady_undelegated, intro allI impI)
  fix ty' w
  assume "(ty', EventHandler w) \<in> set (bindings c t es)" and "ty' = etype (lifecycleEvent n ty)"
  with assms show "wdelegates w = []"
    by (intro bindings_lifecycle [of es ty' w c t]) (simp_all add: lifecycleEvent_def)
qed

lemma applyEventsToTarget_Returned:
  assumes c: "consistent s" and r: "applyEventsToTarget k results t s = Returned s'"
  shows "\<exists>kidsAdd kidsApply.
     (\<forall>entry \<in> set (concat results). accepted (fst entry)) \<and>
     keeps (rebound t (concat results) s) s' \<and> async s' \<and>
     trace s' = trace s @
       (if targetHandlers s t = None \<and> concat results \<noteq> []
        then [Dispatched t (lifecycleEvent t ''amara:add'') kidsAdd] else []) @
       [Dispatched t (lifecycleEvent t ''amara:apply'') kidsApply] \<and>
     calledOn t kidsAdd =
       firedBy (matches s (attributes s)) (lifecycleEvent t ''amara:add'')
         (bindings (closures s) t (concat results)) \<and>
     calledOn t kidsApply =
       firedBy (matches s (attributes s)) (lifecycleEvent t ''amara:apply'')
         (bindings (closures s) t (concat results))"
proof -
  let ?es = "concat results"
  let ?ctx = "\<lparr>ctarget = t, added = False\<rparr>"
  let ?s2 = "rebound t ?es s"
  let ?new = "targetHandlers s t = None \<and> ?es \<noteq> []"
  have c1: "consistent (cleared t s)"
    by (rule consistent_cleared [OF c])
  have acc: "\<forall>entry \<in> set ?es. accepted (fst entry)"
  proof (cases "applyEventMap ?ctx ?es (cleared t s)")
    case (Returned p)
    then show ?thesis by (rule applyEventMap_Returned_accepted)
  next
    case (Threw err s'')
    with r show ?thesis by (simp add: applyEventsToTarget_unfold)
  qed
  have b: "applyEventMap ?ctx ?es (cleared t s) = Returned (?ctx\<lparr>added := ?new\<rparr>, ?s2)"
    using applyEventMap_accepted [OF c1 acc, of ?ctx]
    by (auto simp: rebound_def cleared_registry split: option.split)
  have b2: "bound ?s2 t = bindings (closures s) t ?es"
    by (rule bound_rebound [OF c])
  from syncDispatch_calls [of k t "''amara:add''" ?s2]
  obtain sa kidsAdd where
    sa: "syncDispatch (getTargetDispatcher k t) (Action ''amara:add'' Undefined) ?s2 = Returned sa"
    and ka: "keeps ?s2 sa"
    and ta: "trace sa = trace ?s2 @ [Dispatched t (lifecycleEvent t ''amara:add'') kidsAdd]"
    and ca: "steady (matches ?s2) (lifecycleEvent t ''amara:add'') (bound ?s2 t) \<longrightarrow>
      calledOn t kidsAdd = firedBy (matches ?s2 (attributes ?s2)) (lifecycleEvent t ''amara:add'') (bound ?s2 t)"
    by blast
  have sta: "steady (matches s) (lifecycleEvent t ''amara:add'') (bindings (closures s) t ?es)"
    by (rule steady_bindings [OF acc]) simp
  have stp: "steady (matches s) (lifecycleEvent t ''amara:apply'') (bindings (closures s) t ?es)"
    by (rule steady_bindings [OF acc]) simp
  define s3 where "s3 = (if ?new then sa else ?s2)"
  have 3: "(if ?new then syncDispatch (getTargetDispatcher k t) (Action ''amara:add'' Undefined) ?s2
         else Returned ?s2) = Returned s3"
    by (simp add: s3_def sa)
  have k3: "keeps ?s2 s3"
    by (simp add: s3_def ka)
  have t3: "trace s3 = trace s @ (if ?new then [Dispatched t (lifecycleEvent t ''amara:add'') kidsAdd] else [])"
    by (simp add: s3_def ta)
  have c3: "calledOn t kidsAdd =
      firedBy (matches s (attributes s)) (lifecycleEvent t ''amara:add'') (bindings (closures s) t ?es)"
    using ca sta by (simp add: b2)
  from syncDispatch_calls [of k t "''amara:apply''" s3]
  obtain s4 kidsApply where
    4: "syncDispatch (getTargetDispatcher k t) (Action ''amara:apply'' Undefined) s3 = Returned s4"
    and k4: "keeps s3 s4" and a4: "async s4"
    and t4: "trace s4 = trace s3 @ [Dispatched t (lifecycleEvent t ''amara:apply'') kidsApply]"
    and c4: "steady (matches s3) (lifecycleEvent t ''amara:apply'') (bound s3 t) \<longrightarrow>
      calledOn t kidsApply = firedBy (matches s3 (attributes s3)) (lifecycleEvent t ''amara:apply'') (bound s3 t)"
    by blast
  have "applyEventsToTarget k results t s = Returned s4"
    using b 3 4 by (simp add: applyEventsToTarget_unfold)
  with r have e: "s' = s4" by simp
  have m3: "matches s3 = matches s" "bound s3 t = bindings (closures s) t ?es"
    using k3 b2 by (simp_all add: keeps_def)
  have "calledOn t kidsApply =
      firedBy (matches s (attributes s3)) (lifecycleEvent t ''amara:apply'') (bindings (closures s) t ?es)"
    using c4 stp by (simp add: m3)
  also have "\<dots> =
      firedBy (matches s (attributes s)) (lifecycleEvent t ''amara:apply'') (bindings (closures s) t ?es)"
    by (rule steady_firedBy [OF stp])
  finally have c5: "calledOn t kidsApply =
      firedBy (matches s (attributes s)) (lifecycleEvent t ''amara:apply'') (bindings (closures s) t ?es)" .
  have "keeps ?s2 s4"
    by (rule keeps_trans [OF k3 k4])
  with acc a4 t3 t4 c3 c5 e show ?thesis
    by auto
qed

lemma consistent_applyEventsToTarget:
  assumes c: "consistent s"
  shows "consistent (final (applyEventsToTarget k results t s))"
proof (cases "applyEventsToTarget k results t s")
  case (Returned s')
  from applyEventsToTarget_Returned [OF c Returned]
  have "keeps (rebound t (concat results) s) s'" by blast
  then have "consistent s'"
    using consistent_rebound [OF c] by (rule consistent_keeps)
  with Returned show ?thesis by simp
next
  case (Threw err s')
  let ?r = "applyEventMap \<lparr>ctarget = t, added = False\<rparr> (concat results) (cleared t s)"
  have c2: "consistent (final2 ?r)"
    by (rule consistent_applyEventMap [OF consistent_cleared [OF c]])
  show ?thesis
  proof (cases ?r)
    case (Threw err' s'')
    with \<open>applyEventsToTarget k results t s = Threw err s'\<close> have "s' = s''"
      by (simp add: applyEventsToTarget_unfold)
    with c2 Threw \<open>applyEventsToTarget k results t s = Threw err s'\<close> show ?thesis
      by (simp add: final2_def)
  next
    case (Returned p)
    obtain ctx s2 where p: "p = (ctx, s2)" by (cases p)
    obtain s3 where 3: "(if added ctx
        then syncDispatch (getTargetDispatcher k t) (Action ''amara:add'' Undefined) s2
        else Returned s2) = Returned s3"
      using syncDispatch_calls [of k t "''amara:add''" s2] by (cases "added ctx") auto
    obtain s4 where 4: "syncDispatch (getTargetDispatcher k t) (Action ''amara:apply'' Undefined) s3 = Returned s4"
      using syncDispatch_calls [of k t "''amara:apply''" s3] by auto
    have "applyEventsToTarget k results t s = Returned s4"
      using Returned p 3 4 by (simp add: applyEventsToTarget_unfold)
    with \<open>applyEventsToTarget k results t s = Threw err s'\<close> show ?thesis by simp
  qed
qed

lemma removeTargetHandlers_Returned:
  assumes c: "consistent s" and m: "targetHandlers s t = Some m"
  shows "\<exists>s' kids. removeTargetHandlers k t s = Returned s' \<and> consistent s' \<and>
     trace s' = trace s @ [Dispatched t (lifecycleEvent t ''amara:remove'') kids] \<and>
     (steady (matches s) (lifecycleEvent t ''amara:remove'') (bound s t) \<longrightarrow>
        calledOn t kids =
          firedBy (matches s (attributes s)) (lifecycleEvent t ''amara:remove'') (bound s t)) \<and>
     targetHandlers s' = (targetHandlers s)(t := None) \<and> bound s' t = [] \<and>
     (\<forall>n. n \<noteq> t \<longrightarrow> bound s' n = bound s n) \<and> matches s' = matches s \<and>
     closures s' = closures s"
proof -
  from syncDispatch_calls [of k t "''amara:remove''" s]
  obtain s1 kids where
    1: "syncDispatch (getTargetDispatcher k t) (Action ''amara:remove'' Undefined) s = Returned s1"
    and k1: "keeps s s1"
    and t1: "trace s1 = trace s @ [Dispatched t (lifecycleEvent t ''amara:remove'') kids]"
    and c1: "steady (matches s) (lifecycleEvent t ''amara:remove'') (bound s t) \<longrightarrow>
      calledOn t kids = firedBy (matches s (attributes s)) (lifecycleEvent t ''amara:remove'') (bound s t)"
    by blast
  have cs1: "consistent s1"
    by (rule consistent_keeps [OF k1 c])
  have m1: "targetHandlers s1 = targetHandlers s"
    using k1 by (simp add: keeps_def)
  then have m1t: "targetHandlers s1 t = Some m"
    using m by simp
  let ?s' = "(forEachRemoveListeners t m s1)\<lparr>targetHandlers := (targetHandlers s1)(t := None)\<rparr>"
  have sw: "forEachRemoveListeners t m (s1\<lparr>targetHandlers := (targetHandlers s1)(t := None)\<rparr>) = ?s'"
    by (simp add: forEachRemoveListeners_eq)
  have r: "removeTargetHandlers k t s = Returned ?s'"
    using m 1 m1t sw by (simp add: removeTargetHandlers_def)
  have cs: "consistent ?s'"
    by (rule consistent_detached [OF cs1 m1t]) simp
  have b: "bound ?s' t = []"
    using bound_detached(1) [OF cs1 m1t] by (simp add: bound_def)
  have o: "\<forall>n. n \<noteq> t \<longrightarrow> bound ?s' n = bound s n"
  proof (intro allI impI)
    fix n assume "n \<noteq> t"
    then have "bound ?s' n = bound s1 n"
      using bound_detached(3) [OF cs1 m1t, of n] by (simp add: bound_def)
    then show "bound ?s' n = bound s n"
      using k1 by (simp add: keeps_def)
  qed
  have "matches ?s' = matches s" "closures ?s' = closures s"
    using k1 by (simp_all add: keeps_def)
  with r cs t1 c1 m1 b o show ?thesis
    by simp
qed

lemma consistent_removeTargetHandlers:
  "consistent s \<Longrightarrow> consistent (final (removeTargetHandlers k t s))"
proof (cases "targetHandlers s t")
  case None
  assume "consistent s"
  with None show ?thesis by (simp add: removeTargetHandlers_def)
next
  case (Some m)
  assume "consistent s"
  from removeTargetHandlers_Returned [OF this Some, of k] show ?thesis
    by auto
qed

lemma consistent_forEachApply: "consistent s \<Longrightarrow> consistent (final (forEachApply k events s))"
proof (induction events arbitrary: s)
  case Nil
  then show ?case by simp
next
  case (Cons x events)
  obtain t results where x: "x = (t, results)" by (cases x)
  have c: "consistent (final (applyEventsToTarget k results t s))"
    by (rule consistent_applyEventsToTarget [OF Cons.prems])
  show ?case
  proof (cases "applyEventsToTarget k results t s")
    case (Returned s')
    with c have "consistent s'" by simp
    from Cons.IH [OF this] show ?thesis
      using Returned x by simp
  next
    case (Threw err s')
    with c x show ?thesis by simp
  qed
qed

lemma consistent_forEachRemove: "consistent s \<Longrightarrow> consistent (final (forEachRemove k tgts s))"
proof (induction tgts arbitrary: s)
  case Nil
  then show ?case by simp
next
  case (Cons t tgts)
  have c: "consistent (final (removeTargetHandlers k t s))"
    by (rule consistent_removeTargetHandlers [OF Cons.prems])
  show ?case
  proof (cases "removeTargetHandlers k t s")
    case (Returned s')
    with c have "consistent s'" by simp
    from Cons.IH [OF this] show ?thesis
      using Returned by simp
  next
    case (Threw err s')
    with c show ?thesis by simp
  qed
qed

lemma consistent_observe: "consistent (observe r) = consistent (final r)"
  by (cases r) (simp_all add: observe_def)

lemma consistent_handler: "consistent s \<Longrightarrow> consistent (final (handler k a s))"
proof (cases a)
  case (Bootstrap n)
  have "consistent (s\<lparr>root := Some n\<rparr>) = consistent s"
    by (simp add: consistent_def registered_def bound_def)
  moreover assume "consistent s"
  ultimately show ?thesis
    using Bootstrap by simp
next
  case (ApplyTargetResults events)
  assume "consistent s"
  then show ?thesis
    using ApplyTargetResults by (cases events) (simp_all add: consistent_forEachApply)
next
  case (TargetsRemoved tgts)
  assume "consistent s"
  then show ?thesis
    using TargetsRemoved by (simp add: consistent_forEachRemove)
next
  case (Other ty)
  assume "consistent s"
  then show ?thesis
    using Other by simp
qed

lemma consistent_exec: "consistent s \<Longrightarrow> consistent (exec k st s)"
proof (cases st)
  case (Host a)
  assume "consistent s"
  then show ?thesis
    using Host by (simp add: consistent_observe consistent_handler)
next
  case (Fire n e)
  assume c: "consistent s"
  have "keeps s (dispatchEvent (getTargetDispatcher k) n e s)"
    by (rule keeps_dispatchEvent [OF frame_getTargetDispatcher])
  then show ?thesis
    using Fire c by (simp add: consistent_keeps)
next
  case (Deferred n a)
  assume c: "consistent s"
  have "keeps s (final (getTargetDispatcher k n a True s))"
    using frame_getTargetDispatcher [of k] by (simp add: frame_def)
  then have "consistent (final (getTargetDispatcher k n a True s))"
    using c by (rule consistent_keeps)
  then show ?thesis
    using Deferred by (simp add: consistent_observe)
qed

text \<open>Every state that the engine reaches is consistent.\<close>

lemma consistent_execs: "consistent s \<Longrightarrow> consistent (execs k sts s)"
  by (induction sts arbitrary: s) (simp_all add: consistent_exec)

lemma consistent_reachable: "consistent (execs k sts (init attrs sel))"
  by (rule consistent_execs [OF consistent_init])

section \<open>Parsing facts\<close>

lemma upper_bit5: "isUpper (Char b0 b1 b2 b3 b4 True b6 b7) = False"
  by (cases b6; cases b7; cases b4; cases b3; cases b2; cases b1; cases b0; simp add: isUpper_def)

lemma lowerChar_not_upper: "\<not> isUpper (lowerChar c)"
proof (cases c)
  case (Char b0 b1 b2 b3 b4 b5 b6 b7)
  show ?thesis
    by (simp add: lowerChar_def Char upper_bit5)
qed

lemma toLowerCase_idem: "toLowerCase (toLowerCase s) = toLowerCase s"
proof -
  have "lowerChar (lowerChar c) = lowerChar c" for c
    using lowerChar_not_upper [of c] by (simp add: lowerChar_def [of "lowerChar c"])
  then show ?thesis
    by (simp add: toLowerCase_def)
qed

lemma toLowerCase_delete: "toLowerCase ''delete'' = ''delete''"
  by (simp add: toLowerCase_def lowerChar_def isUpper_def)

lemma toLowerCase_metaValue: "toLowerCase (metaValue e) = metaValue e"
  by (simp add: metaValue_def fixMeta_def toLowerCase_idem toLowerCase_delete)

lemma split_chars: "tok \<in> set (split c s) \<Longrightarrow> set tok \<subseteq> set s"
proof (induction s arbitrary: tok)
  case Nil
  then show ?case by simp
next
  case (Cons x s)
  show ?case
  proof (cases "x = c")
    case True
    with Cons show ?thesis by auto
  next
    case False
    obtain p ps where sp: "split c s = p # ps"
      by (cases "split c s") (cases s, simp_all split: if_splits list.splits)
    with False Cons.prems have "tok = x # p \<or> tok \<in> set ps"
      by simp
    then show ?thesis
    proof
      assume "tok = x # p"
      moreover have "set p \<subseteq> set s"
        using Cons.IH [of p] sp by simp
      ultimately show ?thesis by auto
    next
      assume "tok \<in> set ps"
      then have "set tok \<subseteq> set s"
        using Cons.IH [of tok] sp by simp
      then show ?thesis by auto
    qed
  qed
qed

lemma trim_no_blank: "\<forall>c \<in> set s. \<not> isWhiteSpace c \<Longrightarrow> trim s = s"
proof -
  assume a: "\<forall>c \<in> set s. \<not> isWhiteSpace c"
  have d: "dropWhile isWhiteSpace xs = xs" if "\<forall>c \<in> set xs. \<not> isWhiteSpace c" for xs
    using that by (cases xs) simp_all
  have "dropWhile isWhiteSpace s = s"
    using a by (rule d)
  moreover have "dropWhile isWhiteSpace (rev s) = rev s"
    using a by (intro d) simp
  ultimately show ?thesis
    by (simp add: trim_def)
qed

lemma eventMeta_no_blank:
  "rxEventAndSelectors k = Some (eventMeta, selectors) \<Longrightarrow> \<forall>c \<in> set eventMeta. \<not> isWhiteSpace c"
  by (auto simp: rxEventAndSelectors_def Let_def split: if_splits dest: set_takeWhileD)

lemma tokens_trimLower:
  assumes "rxEventAndSelectors k = Some (eventMeta, selectors)"
  shows "map trimLower (split CHR ''.'' eventMeta) = map toLowerCase (split CHR ''.'' eventMeta)"
proof -
  have "trim tok = tok" if "tok \<in> set (split CHR ''.'' eventMeta)" for tok
    using eventMeta_no_blank [OF assms] split_chars [OF that] by (intro trim_no_blank) blast
  then show ?thesis
    by (simp add: trimLower_def)
qed

lemma parseSpec_tokens:
  assumes r: "rxEventAndSelectors k = Some (eventMeta, selectors)"
    and t: "split CHR ''.'' eventMeta = ev # tokens"
  shows "parseSpec k = Some (asMeta (toLowerCase ev), map (\<lambda>tok. asMeta (toLowerCase tok)) tokens,
     parseDelegates selectors)"
  using tokens_trimLower [OF r] by (simp add: parseSpec_def r parseEventMeta_def t)

lemma closureOf_parsed:
  "parseSpec k = Some (event, meta, delegates) \<Longrightarrow>
     closureOf c t (k, h) = \<lparr>wid = c, whandler = h, wdelegates = delegates, wmeta = meta, wdispatcher = t\<rparr>"
  by (simp add: closureOf_def)

section \<open>The claims\<close>

text \<open>
  The comparison value as the specification words it: stringified, fixed up, then
  lower-cased.
\<close>

definition specMetaValue :: "event \<Rightarrow> string" where
  "specMetaValue e = toLowerCase (fixMeta (String (metaField e)))"

text \<open>A document without attributes in which no node matches a selector.\<close>

definition noAttributes :: "node \<Rightarrow> string \<rightharpoonup> string" where
  "noAttributes n = Map.empty"

definition noMatches :: "(node \<Rightarrow> string \<rightharpoonup> string) \<Rightarrow> node \<Rightarrow> string \<Rightarrow> bool option" where
  "noMatches a n x = Some False"

definition keydownDel :: event where
  "keydownDel = \<lparr>etype = ''keydown'', target = [0], bubbles = True, key = Str ''Del'',
     button = Undefined, detail = None\<rparr>"

text \<open>
  C10. The friendly-name table is applied to the event type as well as to the meta
  tokens: a key whose first token, lower-cased, is space, left, middle, wheel or right is
  bound and registered under " ", "0", "1", "1" or "2"; a listener bound under that value
  is not called for an event of any other type, the written one included.
\<close>

theorem event_type_is_canonicalised:
  assumes r: "rxEventAndSelectors k = Some (eventMeta, selectors)"
    and t: "split CHR ''.'' eventMeta = tok # toks"
    and n: "trimLower tok \<in> {''space'', ''left'', ''middle'', ''wheel'', ''right''}"
  shows "eventOf k = asMeta (trimLower tok) \<and>
     asMeta (trimLower tok) =
       (if trimLower tok = ''space'' then '' '' else if trimLower tok = ''left'' then ''0''
        else if trimLower tok = ''right'' then ''2'' else ''1'') \<and>
     addHandlerForEvent this (k, h) (execs j sts (init attrs sel)) =
       Returned (this\<lparr>added := added this \<or>
                   targetHandlers (execs j sts (init attrs sel)) (ctarget this) = None\<rparr>,
                 bind (ctarget this) (k, h) (execs j sts (init attrs sel))) \<and>
     listeners (bind t (k, h) s) t =
       listeners s t @ [(asMeta (trimLower tok), EventHandler (closureOf (closures s) t (k, h)))] \<and>
     targetHandlers (bind t (k, h) s) t =
       Some (push (asMeta (trimLower tok)) (closureOf (closures s) t (k, h))
               (case targetHandlers s t of None \<Rightarrow> [] | Some m \<Rightarrow> m)) \<and>
     (etype e \<noteq> asMeta (trimLower tok) \<longrightarrow>
        firedBy x e [(asMeta (trimLower tok), EventHandler w)] = []) \<and>
     trimLower tok \<noteq> asMeta (trimLower tok)"
proof -
  have p: "parseSpec k = Some (asMeta (trimLower tok), map asMeta (map trimLower toks),
      parseDelegates selectors)"
    by (simp add: parseSpec_def r parseEventMeta_def t)
  then have e: "eventOf k = asMeta (trimLower tok)"
    by (simp add: eventOf_def)
  have v: "asMeta (trimLower tok) =
       (if trimLower tok = ''space'' then '' '' else if trimLower tok = ''left'' then ''0''
        else if trimLower tok = ''right'' then ''2'' else ''1'')"
    using n by (auto simp: asMeta_def)
  then have "\<not> startsWith (asMeta (trimLower tok)) ''amara:''"
    by (simp split: if_splits)
  with p have a: "accepted (fst (k, h))"
    by (simp add: accepted_def delegatedLifecycle_def)
  have c: "consistent (execs j sts (init attrs sel))"
    by (rule consistent_reachable)
  have 3: "addHandlerForEvent this (k, h) (execs j sts (init attrs sel)) =
       Returned (this\<lparr>added := added this \<or>
                   targetHandlers (execs j sts (init attrs sel)) (ctarget this) = None\<rparr>,
                 bind (ctarget this) (k, h) (execs j sts (init attrs sel)))"
    using a by (simp add: addHandlerForEvent_cases [OF c])
  have 4: "listeners (bind t (k, h) s) t =
       listeners s t @ [(asMeta (trimLower tok), EventHandler (closureOf (closures s) t (k, h)))]"
    by (simp add: e)
  have 5: "targetHandlers (bind t (k, h) s) t =
       Some (push (asMeta (trimLower tok)) (closureOf (closures s) t (k, h))
               (case targetHandlers s t of None \<Rightarrow> [] | Some m \<Rightarrow> m))"
    by (simp add: bind_def e)
  have 6: "etype e \<noteq> asMeta (trimLower tok) \<longrightarrow>
        firedBy x e [(asMeta (trimLower tok), EventHandler w)] = []"
    by auto
  have 7: "trimLower tok \<noteq> asMeta (trimLower tok)"
    using n by (auto simp: asMeta_def)
  from e v 3 4 5 6 7 show ?thesis
    by blast
qed

theorem event_type_is_canonicalised_witness:
  "rxEventAndSelectors ''Left.enter  a, b'' = Some (''Left.enter'', ''  a, b'') \<and>
   split CHR ''.'' ''Left.enter'' = [''Left'', ''enter''] \<and>
   trimLower ''Left'' = ''left'' \<and>
   eventOf ''Left.enter  a, b'' = ''0''"
proof -
  have r: "rxEventAndSelectors ''Left.enter  a, b'' = Some (''Left.enter'', ''  a, b'')"
    by code_simp
  have t: "split CHR ''.'' ''Left.enter'' = [''Left'', ''enter'']"
    by code_simp
  have l: "trimLower ''Left'' = ''left''"
    by code_simp
  have n: "trimLower ''Left'' \<in> {''space'', ''left'', ''middle'', ''wheel'', ''right''}"
    by (simp add: l)
  have "eventOf ''Left.enter  a, b'' = asMeta (trimLower ''Left'')"
    using event_type_is_canonicalised [OF r t n] by blast
  moreover have "asMeta ''left'' = ''0''"
    by (simp add: asMeta_def)
  ultimately show ?thesis
    using r t l by simp
qed

text \<open>
  C8. A key whose event type starts with \<open>amara:\<close> and that declares a delegation
  selector makes \<open>addHandlerForEvent\<close> throw, in any state and with the state unchanged:
  nothing is registered or attached for it. The apply-call ends there: the entries before
  it stay bound on the cleared target, no lifecycle event is dispatched, and the targets
  that follow in the same host action are not processed.
\<close>

theorem delegated_lifecycle_throws_at_apply:
  assumes p: "parseSpec (fst entry) = Some (event, meta, delegates)"
    and a: "startsWith event ''amara:''"
    and d: "delegates \<noteq> []"
    and pre: "\<forall>x \<in> set pre. accepted (fst x)"
    and c: "concat results = pre @ entry # post"
  shows "addHandlerForEvent this entry s0 = Threw DelegationNotAllowed s0 \<and>
     applyEventsToTarget k results t (execs j sts (init attrs sel)) =
       Threw DelegationNotAllowed (rebound t pre (execs j sts (init attrs sel))) \<and>
     handler k (ApplyTargetResults (Some ((t, results) # others))) (execs j sts (init attrs sel)) =
       Threw DelegationNotAllowed (rebound t pre (execs j sts (init attrs sel))) \<and>
     trace (rebound t pre (execs j sts (init attrs sel))) = trace (execs j sts (init attrs sel)) \<and>
     bound (rebound t pre (execs j sts (init attrs sel))) t =
       bindings (closures (execs j sts (init attrs sel))) t pre"
proof -
  let ?s = "execs j sts (init attrs sel)"
  have dl: "delegatedLifecycle (fst entry)"
    using p a d by (simp add: delegatedLifecycle_def)
  then have na: "\<not> accepted (fst entry)"
    by (simp add: accepted_def)
  have 1: "addHandlerForEvent this entry s0 = Threw DelegationNotAllowed s0"
    using dl by (rule addHandlerForEvent_DelegationNotAllowed)
  have cs: "consistent ?s"
    by (rule consistent_reachable)
  have "applyEventMap \<lparr>ctarget = t, added = False\<rparr> (pre @ entry # post) (cleared t ?s) =
      Threw DelegationNotAllowed (bindAll t pre (cleared t ?s))"
    using applyEventMap_throws [OF consistent_cleared [OF cs] pre na, of "\<lparr>ctarget = t, added = False\<rparr>" post]
      p by simp
  then have 2: "applyEventsToTarget k results t ?s = Threw DelegationNotAllowed (rebound t pre ?s)"
    by (simp add: applyEventsToTarget_unfold c rebound_def)
  then have 3: "handler k (ApplyTargetResults (Some ((t, results) # others))) ?s =
      Threw DelegationNotAllowed (rebound t pre ?s)"
    by simp
  have 4: "bound (rebound t pre ?s) t = bindings (closures ?s) t pre"
    by (rule bound_rebound [OF cs])
  from 1 2 3 4 show ?thesis
    by simp
qed

theorem delegated_lifecycle_throws_at_apply_witness:
  "parseSpec ''amara:add div'' = Some (''amara:add'', [], [''div'']) \<and>
   applyEventsToTarget 0 [[(''click'', Handler ''h'' [])], [(''amara:add div'', Handler ''g'' [])]] [0]
       (execs 0 [] (init noAttributes noMatches)) =
     Threw DelegationNotAllowed
       (rebound [0] [(''click'', Handler ''h'' [])] (execs 0 [] (init noAttributes noMatches)))"
proof -
  have p: "parseSpec (fst (''amara:add div'', Handler ''g'' [])) = Some (''amara:add'', [], [''div''])"
    by code_simp
  have a: "startsWith ''amara:add'' ''amara:''"
    by simp
  have d: "[''div''] \<noteq> []"
    by simp
  have pre: "\<forall>x \<in> set [(''click'', Handler ''h'' [])]. accepted (fst x)"
    by code_simp
  have c: "concat [[(''click'', Handler ''h'' [])], [(''amara:add div'', Handler ''g'' [])]] =
      [(''click'', Handler ''h'' [])] @ (''amara:add div'', Handler ''g'' []) # []"
    by simp
  from delegated_lifecycle_throws_at_apply [OF p a d pre c, where k = 0 and t = "[0]" and j = 0
      and sts = "[]" and attrs = noAttributes and sel = noMatches]
  have "applyEventsToTarget 0 [[(''click'', Handler ''h'' [])], [(''amara:add div'', Handler ''g'' [])]] [0]
       (execs 0 [] (init noAttributes noMatches)) =
     Threw DelegationNotAllowed
       (rebound [0] [(''click'', Handler ''h'' [])] (execs 0 [] (init noAttributes noMatches)))"
    by blast
  with p show ?thesis
    by simp
qed





definition allDivs :: "(node \<Rightarrow> string \<rightharpoonup> string) \<Rightarrow> node \<Rightarrow> string \<Rightarrow> bool option" where
  "allDivs a n x = (if x = ''!!!'' then None else Some (x = ''div''))"

definition clickOnChild :: event where
  "clickOnChild = \<lparr>etype = ''click'', target = [1, 0], bubbles = True, key = Undefined,
     button = Undefined, detail = None\<rparr>"

text \<open>
  C6 as stated fails: a handler whose key declares selectors is not called whenever the
  node on which the event originated matches one of them. The key \<open>click !!!, div\<close>
  declares \<open>!!!\<close> and \<open>div\<close>, and the event originates on a node that matches \<open>div\<close>;
  the test of \<open>!!!\<close> comes first and throws a \<open>SyntaxError\<close>, which leaves the listener,
  and the handler is not called.
\<close>

theorem invalid_selector_counterexample:
  "parseSpec ''click !!!, div'' = Some (''click'', [], [''!!!'', ''div'']) \<and>
   matches (init noAttributes allDivs) (attributes (init noAttributes allDivs)) (target clickOnChild)
     ''div'' = Some True \<and>
   calledOn [0] (trace (callListener (getTargetDispatcher 0)
       (EventHandler (closureOf 0 [0] (''click !!!, div'', Handler ''h'' []))) [0] clickOnChild
       (init noAttributes allDivs))) = [] \<and>
   trace (callListener (getTargetDispatcher 0)
       (EventHandler (closureOf 0 [0] (''click !!!, div'', Handler ''h'' []))) [0] clickOnChild
       (init noAttributes allDivs)) = [Uncaught SyntaxError]"
  by code_simp



text \<open>
  C5, as the code has it. The meta tokens of a key are lower-cased and mapped through
  the friendly-name table. A binding without tokens calls its handler whatever the
  comparison value is; one with tokens calls it exactly when the comparison value is one
  of them. The comparison value is the event's \<open>key\<close> for keydown, keyup and keypress,
  its \<open>button\<close> for mousedown and mouseup (and \<open>undefined\<close> for any other type),
  stringified, lower-cased and then fixed up (del to delete). This is the meta filter: the
  event is one that the binding's delegation filter lets through.
\<close>

theorem meta_filter:
  assumes r: "rxEventAndSelectors k = Some (eventMeta, selectors)"
    and t: "split CHR ''.'' eventMeta = ev # tokens"
    and dl: "parseDelegates selectors = [] \<or>
      some (matches s (attributes s) (target e)) (parseDelegates selectors) = Some True"
  shows "wmeta (closureOf c t (k, h)) = map (\<lambda>tok. asMeta (toLowerCase tok)) tokens \<and>
     calledOn this (trace (callListener d (EventHandler (closureOf c t (k, h))) this e s)) =
       calledOn this (trace s) @
         (if tokens = [] \<or>
             fixMeta (toLowerCase (String (metaField e))) \<in> set (map (\<lambda>tok. asMeta (toLowerCase tok)) tokens)
          then [hname h] else []) \<and>
     metaField e =
       (if etype e \<in> {''keydown'', ''keyup'', ''keypress''} then key e
        else if etype e \<in> {''mousedown'', ''mouseup''} then button e else Undefined)"
proof -
  have p: "parseSpec k = Some (asMeta (toLowerCase ev), map (\<lambda>tok. asMeta (toLowerCase tok)) tokens,
      parseDelegates selectors)"
    by (rule parseSpec_tokens [OF r t])
  have 1: "wmeta (closureOf c t (k, h)) = map (\<lambda>tok. asMeta (toLowerCase tok)) tokens"
    by (simp add: closureOf_parsed [OF p])
  have 2: "calledOn this (trace (callListener d (EventHandler (closureOf c t (k, h))) this e s)) =
       calledOn this (trace s) @
         (if tokens = [] \<or>
             fixMeta (toLowerCase (String (metaField e))) \<in> set (map (\<lambda>tok. asMeta (toLowerCase tok)) tokens)
          then [hname h] else [])"
    using dl
    by (simp add: calledOn_callListener closureOf_parsed [OF p] admits_def toLowerCase_metaValue)
      (simp add: metaValue_def)
  have 3: "metaField e =
       (if etype e \<in> {''keydown'', ''keyup'', ''keypress''} then key e
        else if etype e \<in> {''mousedown'', ''mouseup''} then button e else Undefined)"
    by (simp add: metaField_def metaEventMap_def)
  from 1 2 3 show ?thesis
    by blast
qed

theorem meta_filter_witness:
  "rxEventAndSelectors ''keydown.delete'' = Some (''keydown.delete'', []) \<and>
   split CHR ''.'' ''keydown.delete'' = [''keydown'', ''delete''] \<and>
   calledOn [0] (trace (callListener (getTargetDispatcher 0)
       (EventHandler (closureOf 0 [0] (''keydown.delete'', Handler ''h'' []))) [0] keydownDel
       (init noAttributes noMatches))) = [''h'']"
proof -
  have r: "rxEventAndSelectors ''keydown.delete'' = Some (''keydown.delete'', [])"
    by code_simp
  have t: "split CHR ''.'' ''keydown.delete'' = [''keydown'', ''delete'']"
    by code_simp
  have dl: "parseDelegates [] = [] \<or>
      some (matches (init noAttributes noMatches) (attributes (init noAttributes noMatches))
        (target keydownDel)) (parseDelegates []) = Some True"
    by code_simp
  have v: "fixMeta (toLowerCase (String (metaField keydownDel))) = ''delete''"
    by code_simp
  have a: "asMeta (toLowerCase ''delete'') = ''delete''"
    by code_simp
  from meta_filter [OF r t dl, of 0 "[0]" "Handler ''h'' []" "[0]" "getTargetDispatcher 0"]
  have "calledOn [0] (trace (callListener (getTargetDispatcher 0)
       (EventHandler (closureOf 0 [0] (''keydown.delete'', Handler ''h'' []))) [0] keydownDel
       (init noAttributes noMatches))) =
      calledOn [0] (trace (init noAttributes noMatches)) @
        (if [''delete''] = [] \<or> fixMeta (toLowerCase (String (metaField keydownDel))) \<in>
            set (map (\<lambda>tok. asMeta (toLowerCase tok)) [''delete''])
         then [hname (Handler ''h'' [])] else [])"
    by blast
  then show ?thesis
    using r t by (simp add: v a init_def)
qed

text \<open>
  C5 as stated fails: with the value fixed up before it is lower-cased, the key value
  \<open>Del\<close> becomes \<open>del\<close>, which is not the token \<open>delete\<close>; the engine calls the handler.
\<close>

theorem meta_value_order_counterexample:
  "calledOn [0] (trace (callListener (getTargetDispatcher 0)
       (EventHandler (closureOf 0 [0] (''keydown.delete'', Handler ''h'' []))) [0] keydownDel
       (init noAttributes noMatches))) = [''h''] \<and>
   wmeta (closureOf 0 [0] (''keydown.delete'', Handler ''h'' [])) = [''delete''] \<and>
   specMetaValue keydownDel = ''del''"
  by code_simp

section \<open>More on apply-calls, removals and the other steps\<close>

text \<open>
  The names of the handlers that the entries of a call bind for an event and let it
  through to, in the order of the entries, when \<open>sel\<close> is what \<open>Element.matches\<close>
  answers.
\<close>

fun expected :: "(node \<Rightarrow> string \<Rightarrow> bool option) \<Rightarrow> event \<Rightarrow> eventMap \<Rightarrow> string list" where
  "expected sel e [] = []"
| "expected sel e (entry # entries) =
     (case parseSpec (fst entry) of
        None \<Rightarrow> expected sel e entries
      | Some (event, meta, delegates) \<Rightarrow>
          if event = etype e \<and> (delegates = [] \<or> some (sel (target e)) delegates = Some True) \<and>
             (meta = [] \<or> metaValue e \<in> set meta)
          then hname (snd entry) # expected sel e entries
          else expected sel e entries)"

text \<open>\<open>mapEventHandlers.get(ty)\<close> of a node, empty when there is no entry or no array.\<close>

definition registry :: "state \<Rightarrow> node \<Rightarrow> string \<Rightarrow> wrapper list" where
  "registry s n ty =
     (case targetHandlers s n of
        None \<Rightarrow> []
      | Some m \<Rightarrow> (case map_of m ty of None \<Rightarrow> [] | Some ws \<Rightarrow> ws))"

fun wrappersFor :: "string \<Rightarrow> (string \<times> listener) list \<Rightarrow> wrapper list" where
  "wrappersFor ty [] = []"
| "wrappersFor ty ((ty', EventHandler w) # ls) =
     (if ty' = ty then w # wrappersFor ty ls else wrappersFor ty ls)"
| "wrappersFor ty ((ty', ProxyToAmara) # ls) = wrappersFor ty ls"

text \<open>A step that applies event maps to the node or reports it removed.\<close>

fun touches :: "node \<Rightarrow> step \<Rightarrow> bool" where
  "touches t (Host (ApplyTargetResults (Some events))) = (t \<in> fst ` set events)"
| "touches t (Host (TargetsRemoved tgts)) = (t \<in> set tgts)"
| "touches t st = False"

text \<open>
  How often a list of observations shows, at the top, the lifecycle event of a type
  dispatched on a node.
\<close>

fun lifecycleCount :: "node \<Rightarrow> string \<Rightarrow> obs list \<Rightarrow> nat" where
  "lifecycleCount t ty [] = 0"
| "lifecycleCount t ty (Dispatched n e kids # os) =
     (if n = t \<and> e = lifecycleEvent t ty then 1 else 0) + lifecycleCount t ty os"
| "lifecycleCount t ty (Called h this e kids # os) = lifecycleCount t ty os"
| "lifecycleCount t ty (HostDispatch a # os) = lifecycleCount t ty os"
| "lifecycleCount t ty (Uncaught err # os) = lifecycleCount t ty os"

lemma lifecycleCount_append [simp]:
  "lifecycleCount t ty (xs @ ys) = lifecycleCount t ty xs + lifecycleCount t ty ys"
  by (induction t ty xs rule: lifecycleCount.induct) simp_all

lemma firedBy_bindings:
  "\<forall>entry \<in> set es. accepted (fst entry) \<Longrightarrow> firedBy sel e (bindings c t es) = expected sel e es"
proof (induction es arbitrary: c)
  case Nil
  then show ?case by simp
next
  case (Cons entry es)
  then obtain event meta delegates where p: "parseSpec (fst entry) = Some (event, meta, delegates)"
    by (auto simp: accepted_def)
  obtain k h where e: "entry = (k, h)" by (cases entry)
  have "firedBy sel e (bindings (Suc c) t es) = expected sel e es"
    using Cons.prems by (intro Cons.IH) simp
  then show ?case
    using p e
    by (simp add: eventOf_def closureOf_parsed admits_def toLowerCase_metaValue)
qed

lemma applyEventsToTarget_returns:
  assumes c: "consistent s" and acc: "\<forall>entry \<in> set (concat results). accepted (fst entry)"
  shows "\<exists>s'. applyEventsToTarget k results t s = Returned s'"
proof -
  let ?ctx = "\<lparr>ctarget = t, added = False\<rparr>"
  obtain ctx where b: "applyEventMap ?ctx (concat results) (cleared t s) =
      Returned (ctx, bindAll t (concat results) (cleared t s))"
    using applyEventMap_accepted [OF consistent_cleared [OF c] acc, of ?ctx] by simp
  obtain s3 where 3: "(if added ctx
      then syncDispatch (getTargetDispatcher k t) (Action ''amara:add'' Undefined)
             (bindAll t (concat results) (cleared t s))
      else Returned (bindAll t (concat results) (cleared t s))) = Returned s3"
    using syncDispatch_calls [of k t "''amara:add''" "bindAll t (concat results) (cleared t s)"]
    by (cases "added ctx") auto
  obtain s4 where "syncDispatch (getTargetDispatcher k t) (Action ''amara:apply'' Undefined) s3 = Returned s4"
    using syncDispatch_calls [of k t "''amara:apply''" s3] by auto
  with b 3 show ?thesis
    by (simp add: applyEventsToTarget_unfold)
qed

lemma regOf_push:
  "(case map_of (push ev w m) ty of None \<Rightarrow> [] | Some ws \<Rightarrow> ws) =
     (case map_of m ty of None \<Rightarrow> [] | Some ws \<Rightarrow> ws) @ (if ty = ev then [w] else [])"
proof (cases "ev \<in> fst ` set m")
  case False
  then have "map_of m ev = None"
    by (simp add: map_of_eq_None_iff)
  then show ?thesis
    using False by (auto simp: push_def map_add_def split: option.split)
next
  case True
  have "map_of (map (\<lambda>(ty, ws). if ty = ev then (ty, ws @ [w]) else (ty, ws)) m) ty =
      map_option (\<lambda>ws. if ty = ev then ws @ [w] else ws) (map_of m ty)"
    by (induction m) auto
  moreover have "map_of m ev \<noteq> None"
    using True by (simp add: map_of_eq_None_iff)
  ultimately show ?thesis
    using True by (auto simp: push_def split: option.split)
qed

lemma registry_bind:
  "registry (bind t entry s) t ty =
     registry s t ty @ (if ty = eventOf (fst entry) then [closureOf (closures s) t entry] else [])"
  by (simp add: registry_def bind_def regOf_push split: option.split)

lemma registry_bindAll:
  "registry (bindAll t es s) t ty = registry s t ty @ wrappersFor ty (bindings (closures s) t es)"
  by (induction es arbitrary: s) (simp_all add: registry_bind)

lemma registry_rebound: "registry (rebound t es s) t ty = wrappersFor ty (bindings (closures s) t es)"
proof -
  have "registry (cleared t s) t ty = []"
    by (simp add: registry_def cleared_registry split: option.split)
  then show ?thesis
    by (simp add: rebound_def registry_bindAll)
qed

lemma bindings_new: "(ty, EventHandler w) \<in> set (bindings c t es) \<Longrightarrow> c \<le> wid w"
proof (induction es arbitrary: c)
  case Nil
  then show ?case by simp
next
  case (Cons entry es)
  from Cons.prems have "w = closureOf c t entry \<or> (ty, EventHandler w) \<in> set (bindings (Suc c) t es)"
    by auto
  then show ?case
  proof
    assume "w = closureOf c t entry"
    then show ?thesis by simp
  next
    assume "(ty, EventHandler w) \<in> set (bindings (Suc c) t es)"
    from Cons.IH [OF this] show ?thesis by simp
  qed
qed

lemma bindings_no_proxy: "x \<in> set (bindings c t es) \<Longrightarrow> snd x \<noteq> ProxyToAmara"
  by (induction es arbitrary: c) auto

text \<open>The bindings and the registry entry of a node are the same in two states.\<close>

definition same :: "node \<Rightarrow> state \<Rightarrow> state \<Rightarrow> bool" where
  "same t s s' \<longleftrightarrow> bound s' t = bound s t \<and> targetHandlers s' t = targetHandlers s t"

lemma same_refl [simp]: "same t s s"
  by (simp add: same_def)

lemma same_trans: "same t s s1 \<Longrightarrow> same t s1 s2 \<Longrightarrow> same t s s2"
  by (simp add: same_def)

lemma same_keeps: "keeps s s' \<Longrightarrow> same t s s'"
  by (simp add: same_def keeps_def)

lemma same_trace [simp]: "same t s (s'\<lparr>trace := x\<rparr>) = same t s s'"
  by (simp add: same_def bound_def)

lemma same_applyEventMap:
  "consistent s \<Longrightarrow> ctarget this \<noteq> t \<Longrightarrow> same t s (final2 (applyEventMap this es s))"
proof (induction es arbitrary: this s)
  case Nil
  then show ?case by (simp add: final2_def)
next
  case (Cons entry es)
  show ?case
  proof (cases "accepted (fst entry)")
    case False
    then show ?thesis
      by (simp add: addHandlerForEvent_cases [OF Cons.prems(1)] final2_def)
  next
    case True
    let ?s1 = "bind (ctarget this) entry s"
    let ?ctx = "this\<lparr>added := added this \<or> targetHandlers s (ctarget this) = None\<rparr>"
    have 1: "same t s ?s1"
      using Cons.prems(2) by (simp add: same_def bound_bind)
    have "same t ?s1 (final2 (applyEventMap ?ctx es ?s1))"
      using Cons.prems(2) by (intro Cons.IH consistent_bind [OF Cons.prems(1)]) simp
    with 1 have "same t s (final2 (applyEventMap ?ctx es ?s1))"
      by (rule same_trans)
    then show ?thesis
      using True by (simp add: addHandlerForEvent_cases [OF Cons.prems(1)])
  qed
qed

lemma same_cleared: "t' \<noteq> t \<Longrightarrow> same t s (cleared t' s)"
  by (simp add: same_def cleared_registry bound_other [OF cleared_listeners_other])

lemma trace_applyEventMap: "consistent s \<Longrightarrow> trace (final2 (applyEventMap this es s)) = trace s"
proof (induction es arbitrary: this s)
  case Nil
  then show ?case by (simp add: final2_def)
next
  case (Cons entry es)
  show ?case
  proof (cases "accepted (fst entry)")
    case False
    then show ?thesis
      by (simp add: addHandlerForEvent_cases [OF Cons.prems] final2_def)
  next
    case True
    have "trace (final2 (applyEventMap (this\<lparr>added := added this \<or> targetHandlers s (ctarget this) = None\<rparr>)
        es (bind (ctarget this) entry s))) = trace (bind (ctarget this) entry s)"
      by (intro Cons.IH consistent_bind [OF Cons.prems])
    then show ?thesis
      using True by (simp add: addHandlerForEvent_cases [OF Cons.prems])
  qed
qed

text \<open>
  What an apply-call to a node does, whether it returns or throws: it shows none of the
  lifecycle dispatches of \<open>amara:remove\<close>, and it leaves every other node as it was.
\<close>

lemma applyEventsToTarget_threw:
  assumes c: "consistent s" and r: "applyEventsToTarget k results t' s = Threw err s'"
  shows "s' = final2 (applyEventMap \<lparr>ctarget = t', added = False\<rparr> (concat results) (cleared t' s))"
proof (cases "applyEventMap \<lparr>ctarget = t', added = False\<rparr> (concat results) (cleared t' s)")
  case (Threw err' s'')
  with r show ?thesis
    by (simp add: applyEventsToTarget_unfold final2_def)
next
  case (Returned p)
  then have "\<forall>entry \<in> set (concat results). accepted (fst entry)"
    by (rule applyEventMap_Returned_accepted)
  from applyEventsToTarget_returns [OF c this, of k t'] r show ?thesis
    by simp
qed

lemma same_applyEventsToTarget:
  assumes c: "consistent s" and n: "t' \<noteq> t"
  shows "same t s (final (applyEventsToTarget k results t' s))"
proof (cases "applyEventsToTarget k results t' s")
  case (Returned s')
  from applyEventsToTarget_Returned [OF c Returned]
  have "keeps (rebound t' (concat results) s) s'" by blast
  then have "same t (rebound t' (concat results) s) s'"
    by (rule same_keeps)
  moreover have "same t s (rebound t' (concat results) s)"
    using n by (simp add: same_def rebound_other bound_other [OF rebound_other(2)])
  ultimately show ?thesis
    using Returned by (simp add: same_trans)
next
  case (Threw err s')
  have "same t (cleared t' s) (final2 (applyEventMap \<lparr>ctarget = t', added = False\<rparr> (concat results) (cleared t' s)))"
    using n by (intro same_applyEventMap consistent_cleared [OF c]) simp
  with same_cleared [OF n] have "same t s
      (final2 (applyEventMap \<lparr>ctarget = t', added = False\<rparr> (concat results) (cleared t' s)))"
    by (rule same_trans)
  then show ?thesis
    using Threw applyEventsToTarget_threw [OF c Threw] by simp
qed

lemma lifecycleEvent_eq [simp]: "lifecycleEvent t ty = lifecycleEvent t' ty' \<longleftrightarrow> t = t' \<and> ty = ty'"
  by (auto simp: lifecycleEvent_def)

lemma removes_applyEventsToTarget:
  assumes c: "consistent s"
  shows "lifecycleCount t ''amara:remove'' (trace (final (applyEventsToTarget k results t' s))) =
     lifecycleCount t ''amara:remove'' (trace s)"
proof (cases "applyEventsToTarget k results t' s")
  case (Returned s')
  from applyEventsToTarget_Returned [OF c Returned]
  obtain kidsAdd kidsApply where "trace s' = trace s @
       (if targetHandlers s t' = None \<and> concat results \<noteq> []
        then [Dispatched t' (lifecycleEvent t' ''amara:add'') kidsAdd] else []) @
       [Dispatched t' (lifecycleEvent t' ''amara:apply'') kidsApply]"
    by blast
  then show ?thesis
    using Returned by simp
next
  case (Threw err s')
  have "trace (final2 (applyEventMap \<lparr>ctarget = t', added = False\<rparr> (concat results) (cleared t' s))) =
      trace (cleared t' s)"
    by (rule trace_applyEventMap [OF consistent_cleared [OF c]])
  then show ?thesis
    using Threw applyEventsToTarget_threw [OF c Threw] by simp
qed

lemma forEachApply_facts:
  assumes "consistent s"
  shows "lifecycleCount t ''amara:remove'' (trace (final (forEachApply k events s))) =
       lifecycleCount t ''amara:remove'' (trace s)"
    and "t \<notin> fst ` set events \<Longrightarrow> same t s (final (forEachApply k events s))"
  using assms
proof (induction events arbitrary: s)
  case Nil
  {
    case 1
    then show ?case by simp
  next
    case 2
    then show ?case by simp
  }
next
  case (Cons x events)
  obtain t' results where x: "x = (t', results)" by (cases x)
  {
    case 1
    have c: "consistent (final (applyEventsToTarget k results t' s))"
      by (rule consistent_applyEventsToTarget [OF 1])
    have r: "lifecycleCount t ''amara:remove'' (trace (final (applyEventsToTarget k results t' s))) =
        lifecycleCount t ''amara:remove'' (trace s)"
      by (rule removes_applyEventsToTarget [OF 1])
    show ?case
    proof (cases "applyEventsToTarget k results t' s")
      case (Returned s')
      with c r Cons.IH(1) [of s'] show ?thesis
        by (simp add: x)
    next
      case (Threw err s')
      with r show ?thesis
        by (simp add: x)
    qed
  next
    case 2
    have c: "consistent (final (applyEventsToTarget k results t' s))"
      by (rule consistent_applyEventsToTarget [OF 2(2)])
    have n: "t' \<noteq> t" "t \<notin> fst ` set events"
      using 2(1) x by auto
    have r: "same t s (final (applyEventsToTarget k results t' s))"
      by (rule same_applyEventsToTarget [OF 2(2) n(1)])
    show ?case
    proof (cases "applyEventsToTarget k results t' s")
      case (Returned s')
      with c r have "consistent s'" "same t s s'"
        by simp_all
      from this(2) Cons.IH(2) [OF n(2) this(1)] have "same t s (final (forEachApply k events s'))"
        by (rule same_trans)
      with Returned show ?thesis
        by (simp add: x)
    next
      case (Threw err s')
      with r show ?thesis
        by (simp add: x)
    qed
  }
qed

lemma removeTargetHandlers_None:
  "targetHandlers s t = None \<Longrightarrow> removeTargetHandlers k t s = Returned s"
  by (simp add: removeTargetHandlers_def)

lemma removeTargetHandlers_step:
  assumes c: "consistent s"
  obtains s' where "removeTargetHandlers k t' s = Returned s'" and "consistent s'"
    and "targetHandlers s t = None \<longrightarrow> targetHandlers s' t = None"
    and "t' \<noteq> t \<longrightarrow> same t s s' \<and>
         lifecycleCount t ''amara:remove'' (trace s') = lifecycleCount t ''amara:remove'' (trace s)"
    and "t' = t \<longrightarrow> targetHandlers s' t = None \<and>
         lifecycleCount t ''amara:remove'' (trace s') = lifecycleCount t ''amara:remove'' (trace s) +
           (if targetHandlers s t \<noteq> None then 1 else 0)"
proof (cases "targetHandlers s t'")
  case None
  have "removeTargetHandlers k t' s = Returned s"
    by (rule removeTargetHandlers_None [OF None])
  moreover have "t' = t \<longrightarrow> targetHandlers s t = None"
    using None by auto
  ultimately show ?thesis
    using c by (intro that [of s]) simp_all
next
  case (Some m)
  from removeTargetHandlers_Returned [OF c Some, of k]
  obtain s' kids where r: "removeTargetHandlers k t' s = Returned s'" and c': "consistent s'"
    and tr: "trace s' = trace s @ [Dispatched t' (lifecycleEvent t' ''amara:remove'') kids]"
    and th: "targetHandlers s' = (targetHandlers s)(t' := None)"
    and b: "\<forall>n. n \<noteq> t' \<longrightarrow> bound s' n = bound s n"
    by blast
  have 1: "targetHandlers s t = None \<longrightarrow> targetHandlers s' t = None"
    by (simp add: th)
  have 2: "t' \<noteq> t \<longrightarrow> same t s s' \<and>
         lifecycleCount t ''amara:remove'' (trace s') = lifecycleCount t ''amara:remove'' (trace s)"
  proof (intro impI conjI)
    assume n: "t' \<noteq> t"
    then have "bound s' t = bound s t"
      using b by simp
    moreover have "targetHandlers s' t = targetHandlers s t"
      using n by (simp add: th)
    ultimately show "same t s s'"
      by (simp add: same_def)
    show "lifecycleCount t ''amara:remove'' (trace s') = lifecycleCount t ''amara:remove'' (trace s)"
      using n by (simp add: tr)
  qed
  have 3: "t' = t \<longrightarrow> targetHandlers s' t = None \<and>
         lifecycleCount t ''amara:remove'' (trace s') = lifecycleCount t ''amara:remove'' (trace s) +
           (if targetHandlers s t \<noteq> None then 1 else 0)"
    using Some by (auto simp: th tr)
  show ?thesis
    by (rule that [OF r c' 1 2 3])
qed

lemma forEachRemove_facts:
  assumes "consistent s"
  shows "lifecycleCount t ''amara:remove'' (trace (final (forEachRemove k tgts s))) =
       lifecycleCount t ''amara:remove'' (trace s) +
         (if t \<in> set tgts \<and> targetHandlers s t \<noteq> None then 1 else 0)"
    and "t \<notin> set tgts \<Longrightarrow> same t s (final (forEachRemove k tgts s))"
    and "targetHandlers s t = None \<Longrightarrow> targetHandlers (final (forEachRemove k tgts s)) t = None"
    and "consistent (final (forEachRemove k tgts s))"
  using assms
proof (induction tgts arbitrary: s)
  case Nil
  {
    case 1
    then show ?case by simp
  next
    case 2
    then show ?case by simp
  next
    case 3
    then show ?case by simp
  next
    case 4
    then show ?case by simp
  }
next
  case (Cons t' tgts)
  {
    case 1
    from removeTargetHandlers_step [OF 1, of k t' t]
    obtain s' where r: "removeTargetHandlers k t' s = Returned s'" and c': "consistent s'"
      and n: "targetHandlers s t = None \<longrightarrow> targetHandlers s' t = None"
      and o: "t' \<noteq> t \<longrightarrow> same t s s' \<and>
         lifecycleCount t ''amara:remove'' (trace s') = lifecycleCount t ''amara:remove'' (trace s)"
      and e: "t' = t \<longrightarrow> targetHandlers s' t = None \<and>
         lifecycleCount t ''amara:remove'' (trace s') = lifecycleCount t ''amara:remove'' (trace s) +
           (if targetHandlers s t \<noteq> None then 1 else 0)" .
    have f: "final (forEachRemove k (t' # tgts) s) = final (forEachRemove k tgts s')"
      by (simp add: r)
    have ih: "lifecycleCount t ''amara:remove'' (trace (final (forEachRemove k tgts s'))) =
        lifecycleCount t ''amara:remove'' (trace s') +
          (if t \<in> set tgts \<and> targetHandlers s' t \<noteq> None then 1 else 0)"
      by (rule Cons.IH(1) [OF c'])
    show ?case
    proof (cases "t' = t")
      case True
      with e have "targetHandlers s' t = None"
        and "lifecycleCount t ''amara:remove'' (trace s') = lifecycleCount t ''amara:remove'' (trace s) +
           (if targetHandlers s t \<noteq> None then 1 else 0)"
        by simp_all
      with ih True show ?thesis
        unfolding f by simp
    next
      case False
      with o have "same t s s'"
        and l: "lifecycleCount t ''amara:remove'' (trace s') = lifecycleCount t ''amara:remove'' (trace s)"
        by simp_all
      then have "targetHandlers s' t = targetHandlers s t"
        by (simp add: same_def)
      with False l ih show ?thesis
        unfolding f by simp
    qed
  next
    case 2
    from removeTargetHandlers_step [OF 2(2), of k t' t]
    obtain s' where r: "removeTargetHandlers k t' s = Returned s'" and c': "consistent s'"
      and o: "t' \<noteq> t \<longrightarrow> same t s s' \<and>
         lifecycleCount t ''amara:remove'' (trace s') = lifecycleCount t ''amara:remove'' (trace s)" .
    have f: "final (forEachRemove k (t' # tgts) s) = final (forEachRemove k tgts s')"
      by (simp add: r)
    have n: "t' \<noteq> t" "t \<notin> set tgts"
      using 2(1) by auto
    have "same t s s'"
      using o n(1) by simp
    moreover have "same t s' (final (forEachRemove k tgts s'))"
      by (rule Cons.IH(2) [OF n(2) c'])
    ultimately show ?case
      unfolding f by (rule same_trans)
  next
    case 3
    from removeTargetHandlers_step [OF 3(2), of k t' t]
    obtain s' where r: "removeTargetHandlers k t' s = Returned s'" and c': "consistent s'"
      and n: "targetHandlers s t = None \<longrightarrow> targetHandlers s' t = None" .
    have f: "final (forEachRemove k (t' # tgts) s) = final (forEachRemove k tgts s')"
      by (simp add: r)
    have "targetHandlers s' t = None"
      using n 3(1) by simp
    then show ?case
      unfolding f by (rule Cons.IH(3) [OF _ c'])
  next
    case 4
    from removeTargetHandlers_step [OF 4, of k t' t]
    obtain s' where r: "removeTargetHandlers k t' s = Returned s'" and c': "consistent s'" .
    have f: "final (forEachRemove k (t' # tgts) s) = final (forEachRemove k tgts s')"
      by (simp add: r)
    show ?case
      unfolding f by (rule Cons.IH(4) [OF c'])
  }
qed

lemma same_exec:
  assumes c: "consistent s" and n: "\<not> touches t st"
  shows "same t s (exec j st s)"
proof (cases st)
  case (Fire n e)
  have "keeps s (dispatchEvent (getTargetDispatcher j) n e s)"
    by (rule keeps_dispatchEvent [OF frame_getTargetDispatcher])
  then show ?thesis
    using Fire by (simp add: same_keeps)
next
  case (Deferred n a)
  have "keeps s (final (getTargetDispatcher j n a True s))"
    using frame_getTargetDispatcher [of j] by (simp add: frame_def)
  then have "same t s (final (getTargetDispatcher j n a True s))"
    by (rule same_keeps)
  then show ?thesis
    using Deferred by (cases "getTargetDispatcher j n a True s") (simp_all add: observe_def)
next
  case (Host a)
  have "same t s (final (handler j a s))"
  proof (cases a)
    case (Bootstrap r)
    then show ?thesis by (simp add: same_def bound_def)
  next
    case (ApplyTargetResults events)
    show ?thesis
    proof (cases events)
      case None
      with ApplyTargetResults show ?thesis by simp
    next
      case (Some evs)
      with n Host ApplyTargetResults have "t \<notin> fst ` set evs" by simp
      from forEachApply_facts(2) [OF c this] show ?thesis
        using Some ApplyTargetResults by simp
    qed
  next
    case (TargetsRemoved tgts)
    with n Host have "t \<notin> set tgts" by simp
    from forEachRemove_facts(2) [OF c this] show ?thesis
      using TargetsRemoved by simp
  next
    case (Other ty)
    then show ?thesis by simp
  qed
  then show ?thesis
    using Host by (cases "handler j a s") (simp_all add: observe_def)
qed

lemma same_execs:
  assumes "consistent s" and "\<forall>st \<in> set sts. \<not> touches t st"
  shows "same t s (execs j sts s)"
  using assms
proof (induction sts arbitrary: s)
  case Nil
  then show ?case by simp
next
  case (Cons st sts)
  have 1: "same t s (exec j st s)"
    using Cons.prems by (intro same_exec) simp_all
  have 2: "same t (exec j st s) (execs j sts (exec j st s))"
    using Cons.prems by (intro Cons.IH consistent_exec) simp_all
  have "same t s (execs j sts (exec j st s))"
    by (rule same_trans [OF 1 2])
  then show ?case by simp
qed

text \<open>
  What an apply-call does when all its keys are accepted, and what an event fired on a
  node calls when the node's listeners are the bindings of such a call.
\<close>

lemma apply_call:
  assumes c: "consistent s" and acc: "\<forall>entry \<in> set (concat results). accepted (fst entry)"
  obtains s' kidsAdd kidsApply where "applyEventsToTarget k results t s = Returned s'"
    and "consistent s'"
    and "bound s' t = bindings (closures s) t (concat results)"
    and "targetHandlers s' t = targetHandlers (rebound t (concat results) s) t"
    and "matches s' = matches s"
    and "trace s' = trace s @
       (if targetHandlers s t = None \<and> concat results \<noteq> []
        then [Dispatched t (lifecycleEvent t ''amara:add'') kidsAdd] else []) @
       [Dispatched t (lifecycleEvent t ''amara:apply'') kidsApply]"
    and "calledOn t kidsAdd =
       expected (matches s (attributes s)) (lifecycleEvent t ''amara:add'') (concat results)"
    and "calledOn t kidsApply =
       expected (matches s (attributes s)) (lifecycleEvent t ''amara:apply'') (concat results)"
proof -
  from applyEventsToTarget_returns [OF c acc, of k t]
  obtain s' where r: "applyEventsToTarget k results t s = Returned s'" ..
  from applyEventsToTarget_Returned [OF c r]
  obtain kidsAdd kidsApply where k: "keeps (rebound t (concat results) s) s'"
    and tr: "trace s' = trace s @
       (if targetHandlers s t = None \<and> concat results \<noteq> []
        then [Dispatched t (lifecycleEvent t ''amara:add'') kidsAdd] else []) @
       [Dispatched t (lifecycleEvent t ''amara:apply'') kidsApply]"
    and a: "calledOn t kidsAdd =
       firedBy (matches s (attributes s)) (lifecycleEvent t ''amara:add'')
         (bindings (closures s) t (concat results))"
    and p: "calledOn t kidsApply =
       firedBy (matches s (attributes s)) (lifecycleEvent t ''amara:apply'')
         (bindings (closures s) t (concat results))"
    by (elim exE conjE)
  have cs: "consistent s'"
    by (rule consistent_keeps [OF k consistent_rebound [OF c]])
  have b: "bound s' t = bindings (closures s) t (concat results)"
    using k bound_rebound [OF c, of t "concat results"] by (simp add: keeps_def)
  have th: "targetHandlers s' t = targetHandlers (rebound t (concat results) s) t"
    using k by (simp add: keeps_def)
  have ms: "matches s' = matches s"
    using k by (simp add: keeps_def)
  have a': "calledOn t kidsAdd =
      expected (matches s (attributes s)) (lifecycleEvent t ''amara:add'') (concat results)"
    using a by (simp add: firedBy_bindings [OF acc])
  have p': "calledOn t kidsApply =
      expected (matches s (attributes s)) (lifecycleEvent t ''amara:apply'') (concat results)"
    using p by (simp add: firedBy_bindings [OF acc])
  show thesis
    using r cs b th ms tr a' p' by (rule that)
qed

lemma fire_bindings:
  assumes b: "bound s t = bindings c t es" and acc: "\<forall>entry \<in> set es. accepted (fst entry)"
    and st: "steady (matches s) (e\<lparr>target := t\<rparr>) (bindings c t es)"
  shows "\<exists>kids. trace (exec j (Fire t e) s) = trace s @ [Dispatched t (e\<lparr>target := t\<rparr>) kids] \<and>
     calledOn t kids = expected (matches s (attributes s)) (e\<lparr>target := t\<rparr>) es"
  using dispatchEvent_calls [OF frame_getTargetDispatcher, of j t e s] st
  by (simp add: b firedBy_bindings [OF acc])

lemma fire_unbound:
  assumes b: "bound s t = []"
  shows "\<exists>kids. trace (exec j (Fire t e) s) = trace s @ [Dispatched t (e\<lparr>target := t\<rparr>) kids] \<and>
     calledOn t kids = []"
  using dispatchEvent_calls [OF frame_getTargetDispatcher, of j t e s]
  by (simp add: b steady_def)

text \<open>A host action that reports the node removed.\<close>

fun reportsRemoved :: "node \<Rightarrow> host_action \<Rightarrow> bool" where
  "reportsRemoved t (TargetsRemoved tgts) = (t \<in> set tgts)"
| "reportsRemoved t a = False"

lemma removes_host_action:
  assumes c: "consistent s"
  shows "lifecycleCount t ''amara:remove'' (trace (exec k (Host a) s)) =
     lifecycleCount t ''amara:remove'' (trace s) +
       (if reportsRemoved t a \<and> targetHandlers s t \<noteq> None then 1 else 0)"
proof -
  have o: "lifecycleCount t ''amara:remove'' (trace (observe r)) =
      lifecycleCount t ''amara:remove'' (trace (final r))" for r
    by (cases r) (simp_all add: observe_def)
  show ?thesis
  proof (cases a)
    case (Bootstrap r)
    then show ?thesis by (simp add: o)
  next
    case (ApplyTargetResults events)
    show ?thesis
    proof (cases events)
      case None
      with ApplyTargetResults show ?thesis by (simp add: o)
    next
      case (Some evs)
      with ApplyTargetResults forEachApply_facts(1) [OF c, of t k evs] show ?thesis
        by (simp add: o)
    qed
  next
    case (TargetsRemoved tgts)
    with forEachRemove_facts(1) [OF c, of t k tgts] show ?thesis
      by (simp add: o)
  next
    case (Other ty)
    then show ?thesis by (simp add: o)
  qed
qed

section \<open>Lifecycle listeners declare no selector\<close>

text \<open>
  In every state that the engine reaches the listeners bound for a lifecycle event
  declare no selector, since \<open>addHandlerForEvent\<close> refuses the keys that would; and
  \<open>Element.matches\<close> is the document's, which the engine does not replace.
\<close>

definition undelegated :: "state \<Rightarrow> bool" where
  "undelegated s \<longleftrightarrow>
     (\<forall>n ty w. (ty, EventHandler w) \<in> set (bound s n) \<longrightarrow> startsWith ty ''amara:'' \<longrightarrow> wdelegates w = [])"

lemma undelegatedI:
  "(\<And>n ty w. (ty, EventHandler w) \<in> set (bound s n) \<Longrightarrow> startsWith ty ''amara:'' \<Longrightarrow> wdelegates w = [])
     \<Longrightarrow> undelegated s"
  by (simp add: undelegated_def)

lemma undelegatedD:
  "undelegated s \<Longrightarrow> (ty, EventHandler w) \<in> set (bound s n) \<Longrightarrow> startsWith ty ''amara:'' \<Longrightarrow>
     wdelegates w = []"
  unfolding undelegated_def by blast

lemma undelegated_bound: "\<forall>n. bound s' n = bound s n \<Longrightarrow> undelegated s \<Longrightarrow> undelegated s'"
  by (simp add: undelegated_def)

lemma undelegated_keeps: "keeps s s' \<Longrightarrow> undelegated s \<Longrightarrow> undelegated s'"
  by (simp add: undelegated_def keeps_def)

lemma undelegated_trace [simp]: "undelegated (s\<lparr>trace := x\<rparr>) = undelegated s"
  by (simp add: undelegated_def bound_def)

lemma undelegated_init: "undelegated (init attrs sel)"
  by (simp add: undelegated_def init_def bound_def)

lemma undelegated_bind:
  assumes a: "accepted (fst entry)" and u: "undelegated s"
  shows "undelegated (bind t entry s)"
proof (rule undelegatedI)
  fix n ty w
  assume m: "(ty, EventHandler w) \<in> set (bound (bind t entry s) n)" and l: "startsWith ty ''amara:''"
  show "wdelegates w = []"
  proof (cases "(ty, EventHandler w) \<in> set (bound s n)")
    case True
    from undelegatedD [OF u True l] show ?thesis .
  next
    case False
    with m have "(ty, EventHandler w) \<in> set (bindings (closures s) t [entry])"
      by (cases "n = t") (auto simp: bound_bind)
    moreover have "\<forall>x \<in> set [entry]. accepted (fst x)"
      using a by simp
    ultimately show ?thesis
      using l by (intro bindings_lifecycle [of "[entry]" ty w "closures s" t]) simp_all
  qed
qed

lemma undelegated_cleared:
  assumes c: "consistent s" and u: "undelegated s"
  shows "undelegated (cleared t s)"
proof (rule undelegatedI)
  fix n ty w
  assume m: "(ty, EventHandler w) \<in> set (bound (cleared t s) n)" and l: "startsWith ty ''amara:''"
  have "n \<noteq> t"
    using m bound_cleared [OF c, of t] by auto
  then have "bound (cleared t s) n = bound s n"
    by (intro bound_other cleared_listeners_other)
  with m have "(ty, EventHandler w) \<in> set (bound s n)"
    by simp
  from undelegatedD [OF u this l] show "wdelegates w = []" .
qed

lemma settled_applyEventMap:
  assumes "consistent s" and "undelegated s"
  shows "undelegated (final2 (applyEventMap this es s)) \<and>
     matches (final2 (applyEventMap this es s)) = matches s"
  using assms
proof (induction es arbitrary: this s)
  case Nil
  then show ?case by (simp add: final2_def)
next
  case (Cons entry es)
  let ?s1 = "bind (ctarget this) entry s"
  let ?ctx = "this\<lparr>added := added this \<or> targetHandlers s (ctarget this) = None\<rparr>"
  show ?case
  proof (cases "accepted (fst entry)")
    case False
    with Cons.prems show ?thesis
      by (simp add: addHandlerForEvent_cases [OF Cons.prems(1)] final2_def)
  next
    case True
    have "undelegated (final2 (applyEventMap ?ctx es ?s1)) \<and>
        matches (final2 (applyEventMap ?ctx es ?s1)) = matches ?s1"
      by (rule Cons.IH [OF consistent_bind [OF Cons.prems(1)] undelegated_bind [OF True Cons.prems(2)]])
    then show ?thesis
      using True by (simp add: addHandlerForEvent_cases [OF Cons.prems(1)])
  qed
qed

lemma settled_applyEventsToTarget:
  assumes c: "consistent s" and u: "undelegated s"
  shows "undelegated (final (applyEventsToTarget k results t s))"
    and "matches (final (applyEventsToTarget k results t s)) = matches s"
proof -
  let ?ctx = "\<lparr>ctarget = t, added = False\<rparr>"
  let ?s2 = "final2 (applyEventMap ?ctx (concat results) (cleared t s))"
  have u2: "undelegated ?s2" and m2: "matches ?s2 = matches s"
    using settled_applyEventMap [OF consistent_cleared [OF c] undelegated_cleared [OF c u],
        of ?ctx "concat results"]
    by simp_all
  have "undelegated (final (applyEventsToTarget k results t s)) \<and>
      matches (final (applyEventsToTarget k results t s)) = matches s"
  proof (cases "applyEventsToTarget k results t s")
    case (Threw err s')
    from applyEventsToTarget_threw [OF c Threw] u2 m2 Threw show ?thesis
      by simp
  next
    case (Returned s')
    from applyEventsToTarget_Returned [OF c Returned]
    have acc: "\<forall>entry \<in> set (concat results). accepted (fst entry)"
      and k: "keeps (rebound t (concat results) s) s'"
      by blast+
    have "?s2 = rebound t (concat results) s"
      using applyEventMap_accepted [OF consistent_cleared [OF c] acc, of ?ctx]
      by (simp add: final2_def rebound_def)
    with u2 have "undelegated (rebound t (concat results) s)"
      by simp
    with k have "undelegated s'"
      by (rule undelegated_keeps)
    moreover have "matches s' = matches s"
      using k by (simp add: keeps_def)
    ultimately show ?thesis
      using Returned by simp
  qed
  then show "undelegated (final (applyEventsToTarget k results t s))"
    and "matches (final (applyEventsToTarget k results t s)) = matches s"
    by simp_all
qed

lemma settled_removeTargetHandlers:
  assumes c: "consistent s" and u: "undelegated s"
  shows "undelegated (final (removeTargetHandlers k t s))"
    and "matches (final (removeTargetHandlers k t s)) = matches s"
proof -
  have "undelegated (final (removeTargetHandlers k t s)) \<and>
      matches (final (removeTargetHandlers k t s)) = matches s"
  proof (cases "targetHandlers s t")
    case None
    with u show ?thesis
      by (simp add: removeTargetHandlers_None)
  next
    case (Some m)
    from removeTargetHandlers_Returned [OF c Some, of k]
    obtain s' where r: "removeTargetHandlers k t s = Returned s'" and b: "bound s' t = []"
      and o: "\<forall>n. n \<noteq> t \<longrightarrow> bound s' n = bound s n" and ms: "matches s' = matches s"
      by blast
    have "undelegated s'"
    proof (rule undelegatedI)
      fix n ty w
      assume m: "(ty, EventHandler w) \<in> set (bound s' n)" and l: "startsWith ty ''amara:''"
      from m b have "n \<noteq> t"
        by auto
      with o m have "(ty, EventHandler w) \<in> set (bound s n)"
        by simp
      from undelegatedD [OF u this l] show "wdelegates w = []" .
    qed
    with r ms show ?thesis
      by simp
  qed
  then show "undelegated (final (removeTargetHandlers k t s))"
    and "matches (final (removeTargetHandlers k t s)) = matches s"
    by simp_all
qed

lemma settled_forEachApply:
  assumes "consistent s" and "undelegated s"
  shows "undelegated (final (forEachApply k events s)) \<and>
     matches (final (forEachApply k events s)) = matches s"
  using assms
proof (induction events arbitrary: s)
  case Nil
  then show ?case by simp
next
  case (Cons x events)
  obtain t results where x: "x = (t, results)" by (cases x)
  have c: "consistent (final (applyEventsToTarget k results t s))"
    by (rule consistent_applyEventsToTarget [OF Cons.prems(1)])
  have u: "undelegated (final (applyEventsToTarget k results t s))"
    and m: "matches (final (applyEventsToTarget k results t s)) = matches s"
    by (rule settled_applyEventsToTarget [OF Cons.prems])+
  show ?case
  proof (cases "applyEventsToTarget k results t s")
    case (Returned s')
    with c u m Cons.IH [of s'] show ?thesis
      by (simp add: x)
  next
    case (Threw err s')
    with u m show ?thesis
      by (simp add: x)
  qed
qed

lemma settled_forEachRemove:
  assumes "consistent s" and "undelegated s"
  shows "undelegated (final (forEachRemove k tgts s)) \<and>
     matches (final (forEachRemove k tgts s)) = matches s"
  using assms
proof (induction tgts arbitrary: s)
  case Nil
  then show ?case by simp
next
  case (Cons t tgts)
  have c: "consistent (final (removeTargetHandlers k t s))"
    by (rule consistent_removeTargetHandlers [OF Cons.prems(1)])
  have u: "undelegated (final (removeTargetHandlers k t s))"
    and m: "matches (final (removeTargetHandlers k t s)) = matches s"
    by (rule settled_removeTargetHandlers [OF Cons.prems])+
  show ?case
  proof (cases "removeTargetHandlers k t s")
    case (Returned s')
    with c u m Cons.IH [of s'] show ?thesis
      by simp
  next
    case (Threw err s')
    with u m show ?thesis
      by simp
  qed
qed

lemma settled_exec:
  assumes c: "consistent s" and u: "undelegated s"
  shows "undelegated (exec k st s) \<and> matches (exec k st s) = matches s"
proof (cases st)
  case (Fire n e)
  have "keeps s (dispatchEvent (getTargetDispatcher k) n e s)"
    by (rule keeps_dispatchEvent [OF frame_getTargetDispatcher])
  then show ?thesis
    using Fire u by (simp add: undelegated_keeps) (simp add: keeps_def)
next
  case (Deferred n a)
  have k: "keeps s (final (getTargetDispatcher k n a True s))"
    using frame_getTargetDispatcher [of k] by (simp add: frame_def)
  then have "undelegated (final (getTargetDispatcher k n a True s))"
    using u by (rule undelegated_keeps)
  moreover have "matches (final (getTargetDispatcher k n a True s)) = matches s"
    using k by (simp add: keeps_def)
  ultimately show ?thesis
    using Deferred by (cases "getTargetDispatcher k n a True s") (simp_all add: observe_def)
next
  case (Host a)
  have "undelegated (final (handler k a s)) \<and> matches (final (handler k a s)) = matches s"
  proof (cases a)
    case (Bootstrap r)
    have "undelegated (s\<lparr>root := Some r\<rparr>)"
      using u by (simp add: undelegated_def bound_def)
    with Bootstrap show ?thesis by simp
  next
    case (ApplyTargetResults events)
    show ?thesis
    proof (cases events)
      case None
      with ApplyTargetResults u show ?thesis by simp
    next
      case (Some evs)
      with ApplyTargetResults settled_forEachApply [OF c u, of k evs] show ?thesis
        by simp
    qed
  next
    case (TargetsRemoved tgts)
    with settled_forEachRemove [OF c u, of k tgts] show ?thesis
      by simp
  next
    case (Other ty)
    with u show ?thesis by simp
  qed
  then show ?thesis
    using Host by (cases "handler k a s") (simp_all add: observe_def)
qed

lemma settled_execs:
  "consistent s \<Longrightarrow> undelegated s \<Longrightarrow>
     undelegated (execs k sts s) \<and> matches (execs k sts s) = matches s"
proof (induction sts arbitrary: s)
  case Nil
  then show ?case by simp
next
  case (Cons st sts)
  from settled_exec [OF Cons.prems, of k st]
  have u: "undelegated (exec k st s)" and m: "matches (exec k st s) = matches s"
    by simp_all
  from Cons.IH [OF consistent_exec [OF Cons.prems(1)] u] m show ?case
    by simp
qed

lemma undelegated_reachable: "undelegated (execs k sts (init attrs sel))"
proof -
  have "consistent (init attrs sel)" and "undelegated (init attrs sel)"
    by (rule consistent_init, rule undelegated_init)
  from settled_execs [OF this] show ?thesis
    by simp
qed

lemma matches_reachable: "matches (execs k sts (init attrs sel)) = sel"
proof -
  have "consistent (init attrs sel)" and "undelegated (init attrs sel)"
    by (rule consistent_init, rule undelegated_init)
  from settled_execs [OF this, of k sts] show ?thesis
    by (simp add: init_def)
qed

lemma steady_lifecycle:
  assumes "undelegated s" and "startsWith ty ''amara:''"
  shows "steady m (lifecycleEvent t ty) (bound s n)"
proof (rule steady_undelegated, intro allI impI)
  fix ty' w
  assume "(ty', EventHandler w) \<in> set (bound s n)" and "ty' = etype (lifecycleEvent t ty)"
  with assms show "wdelegates w = []"
    by (intro undelegatedD [of s ty' w n]) (simp_all add: lifecycleEvent_def)
qed

text \<open>
  The selectors that the entries of a call declare for an event type. The bindings of
  the call are steady for an event when the answer of \<open>Element.matches\<close> for the
  event's target and each of these selectors does not depend on the attributes.
\<close>

fun selectorsFor :: "string \<Rightarrow> eventMap \<Rightarrow> string list" where
  "selectorsFor ty [] = []"
| "selectorsFor ty (entry # entries) =
     (case parseSpec (fst entry) of
        None \<Rightarrow> []
      | Some (event, meta, delegates) \<Rightarrow> if event = ty then delegates else []) @
     selectorsFor ty entries"

lemma bindings_selectors:
  assumes "(ty, EventHandler w) \<in> set (bindings c t es)" and "x \<in> set (wdelegates w)"
  shows "x \<in> set (selectorsFor ty es)"
  using assms
proof (induction es arbitrary: c)
  case Nil
  then show ?case by simp
next
  case (Cons entry es)
  from Cons.prems(1)
  have "(ty = eventOf (fst entry) \<and> w = closureOf c t entry) \<or>
      (ty, EventHandler w) \<in> set (bindings (Suc c) t es)"
    by auto
  then show ?case
  proof
    assume h: "ty = eventOf (fst entry) \<and> w = closureOf c t entry"
    show ?thesis
    proof (cases "parseSpec (fst entry)")
      case None
      with h Cons.prems(2) show ?thesis
        by (simp add: closureOf_def)
    next
      case (Some p)
      obtain event meta delegates where p: "p = (event, meta, delegates)"
        by (cases p)
      from h Some p have "ty = event" "wdelegates w = delegates"
        by (simp_all add: eventOf_def closureOf_def)
      with Cons.prems(2) Some p show ?thesis
        by simp
    qed
  next
    assume "(ty, EventHandler w) \<in> set (bindings (Suc c) t es)"
    from Cons.IH [OF this Cons.prems(2)] show ?thesis
      by simp
  qed
qed

lemma steady_selectorsFor:
  assumes "\<forall>x \<in> set (selectorsFor (etype e) es). \<forall>a a'. m a (target e) x = m a' (target e) x"
  shows "steady m e (bindings c t es)"
  unfolding steady_def
proof (intro allI impI)
  fix ty w x a a'
  assume "(ty, EventHandler w) \<in> set (bindings c t es)" and "ty = etype e"
    and "x \<in> set (wdelegates w)"
  then have "x \<in> set (selectorsFor (etype e) es)"
    using bindings_selectors [of ty w c t es x] by simp
  with assms show "m a (target e) x = m a' (target e) x"
    by blast
qed

text \<open>
  The accepted keys of a lifecycle event declare no selector: which of their handlers
  the event calls does not depend on what \<open>Element.matches\<close> answers.
\<close>

lemma expected_lifecycle:
  assumes "\<forall>entry \<in> set es. accepted (fst entry)" and "startsWith (etype e) ''amara:''"
  shows "expected x e es = expected y e es"
  using assms(1)
proof (induction es)
  case Nil
  then show ?case by simp
next
  case (Cons entry es)
  then obtain event meta delegates where p: "parseSpec (fst entry) = Some (event, meta, delegates)"
    and a: "\<not> (startsWith event ''amara:'' \<and> delegates \<noteq> [])"
    by (auto simp: accepted_def delegatedLifecycle_def)
  have ih: "expected x e es = expected y e es"
    using Cons by simp
  show ?case
  proof (cases "event = etype e")
    case True
    with a assms(2) have "delegates = []"
      by simp
    with p ih show ?thesis
      by simp
  next
    case False
    with p ih show ?thesis
      by simp
  qed
qed

end
